theory Spec2Isabelle
  imports Main "HOL-Library.Word"
begin

unbundle bit_operations_syntax

section \<open>Data model of boggle.C\<close>

text \<open>
  The dictionary is a tree of heap nodes, each owning its 26 children
  (\<^verbatim>\<open>struct Trie { char ch; int flags; Trie *child[ALPHABET_SIZE]; }\<close>).
  A pointer to a node is a \<open>Trie option\<close>, \<open>None\<close> being \<^verbatim>\<open>NULL\<close>;
  the array of children is a list, which the allocator creates with
  \<open>ALPHABET_SIZE\<close> entries (\<open>wfNode\<close> below).
\<close>

definition ALPHABET_SIZE :: nat where
  "ALPHABET_SIZE = 26"

definition MAX_WORD_LENGTH :: nat where
  "MAX_WORD_LENGTH = 80"

definition FLAGS_ISWORD :: "32 word" where
  "FLAGS_ISWORD = 1"

datatype Trie = Trie (ch: char) (flags: "32 word") (child: "Trie option list")

text \<open>
  The control block. The three heap arrays are lists; \<open>search\<close> is the
  fixed buffer of \<open>MAX_WORD_LENGTH\<close> characters. The two counters are
  \<^verbatim>\<open>size_t\<close> in the source and are only ever incremented by one per node.
\<close>

record BoggleCB =
  search :: "char list"
  dict :: "Trie option"
  histogram :: "int list"
  board :: "char list"
  used :: "bool list"
  trieAllocCalls :: nat
  trieFreeCalls :: nat
  boardSize :: int
  maxBoardSize :: int

text \<open>
  What stops the C program: a failed \<^verbatim>\<open>assert\<close>, an access outside an
  array, or a dereference of \<^verbatim>\<open>NULL\<close>.
\<close>

datatype error = AssertFail | OutOfBounds | NullDeref

section \<open>Characters\<close>

definition NUL :: char where
  "NUL = CHR 0x00"

text \<open>
  The value of a \<^verbatim>\<open>char\<close> as an \<^verbatim>\<open>int\<close>. \<^verbatim>\<open>char\<close> is taken as signed, as it is
  with gcc on x86: a byte above 127 is a negative number, and the byte
  \<open>0xFF\<close> is \<open>-1\<close>, the value of \<^verbatim>\<open>EOF\<close>.
\<close>

definition charValue :: "char \<Rightarrow> int" where
  "charValue c = (let n = (of_char c :: int) in if n < 128 then n else n - 256)"

text \<open>
  \<^verbatim>\<open>tolower\<close> and \<^verbatim>\<open>isalpha\<close> of the C library, in the C locale, on the
  values of a \<^verbatim>\<open>char\<close>: outside the capital letters \<^verbatim>\<open>tolower\<close> returns its
  argument.
\<close>

definition tolower :: "int \<Rightarrow> int" where
  "tolower n = (if 65 \<le> n \<and> n \<le> 90 then n + 32 else n)"

definition isalpha :: "int \<Rightarrow> bool" where
  "isalpha n = ((65 \<le> n \<and> n \<le> 90) \<or> (97 \<le> n \<and> n \<le> 122))"

text \<open>
  \<^verbatim>\<open>getCharIndex\<close>: \<^verbatim>\<open>tolower(c) - base\<close> with \<^verbatim>\<open>base = 'a'\<close>, in \<^verbatim>\<open>int\<close>. A byte
  that is not a letter gives an index outside \<open>0..25\<close>, and a byte above 127
  a negative one.
\<close>

definition getCharIndex :: "char \<Rightarrow> int" where
  "getCharIndex c = tolower (charValue c) - 97"

text \<open>
  An array is a list, and an index is inside it when \<open>inRange\<close> holds; any
  other access is the error \<open>OutOfBounds\<close>.
\<close>

definition inRange :: "int \<Rightarrow> 'a list \<Rightarrow> bool" where
  "inRange i xs = (0 \<le> i \<and> i < int (length xs))"

definition getBoardIndex :: "BoggleCB \<Rightarrow> int \<Rightarrow> int \<Rightarrow> int" where
  "getBoardIndex bCB row col = boardSize bCB * row + col"

section \<open>Building the dictionary\<close>

text \<open>
  \<^verbatim>\<open>malloc\<close> is modelled by a budget: the number of nodes the heap can
  still deliver. \<^verbatim>\<open>trieAllocNode\<close> returns \<^verbatim>\<open>NULL\<close> when it is exhausted,
  and a zeroed node otherwise.
\<close>

definition trieAllocNode :: "nat \<Rightarrow> Trie option \<times> nat" where
  "trieAllocNode heap =
     (if heap = 0 then (None, heap)
      else (Some (Trie NUL 0 (replicate ALPHABET_SIZE None)), heap - 1))"

text \<open>
  How the \<^verbatim>\<open>for\<close> loop of \<^verbatim>\<open>trieAddWord\<close> is left: with \<open>i == stringLength\<close>,
  by the \<^verbatim>\<open>break\<close> on a letter whose histogram count is zero, or by the
  \<^verbatim>\<open>goto exit\<close> after a failed allocation.
\<close>

datatype walk = Completed | Abandoned | NoMemory

text \<open>
  The loop of \<^verbatim>\<open>trieAddWord\<close> from the node \<open>cur\<close> on, for the letters still
  to come. The C code walks down with a pointer and writes into the nodes in
  place; here the updated node is returned, together with the number of
  nodes allocated and the remaining heap budget. When the letters are used
  up, the node reached is \<^verbatim>\<open>prevNode\<close>, which gets \<^verbatim>\<open>FLAGS_ISWORD\<close>.
\<close>

fun trieDescend :: "int list \<Rightarrow> Trie \<Rightarrow> string \<Rightarrow> nat \<Rightarrow> error + (walk \<times> Trie \<times> nat \<times> nat)" where
  "trieDescend hist cur [] heap =
     Inr (Completed, Trie (ch cur) (flags cur OR FLAGS_ISWORD) (child cur), 0, heap)"
| "trieDescend hist cur (c # cs) heap =
     (let ix = getCharIndex c in
      if \<not> inRange ix hist then Inl OutOfBounds
      else if hist ! nat ix = 0 then Inr (Abandoned, cur, 0, heap)
      else if \<not> inRange ix (child cur) then Inl OutOfBounds
      else
        (case (case child cur ! nat ix of
                 Some n \<Rightarrow> (Some n, 0, heap)
               | None \<Rightarrow> (case trieAllocNode heap of (n, heap') \<Rightarrow> (n, 1, heap')))
         of (None, a, heap') \<Rightarrow> Inr (NoMemory, cur, 0, heap')
          | (Some n, a, heap') \<Rightarrow>
              (case trieDescend hist (Trie c (flags n) (child n)) cs heap' of
                 Inl e \<Rightarrow> Inl e
               | Inr (w, n', a', heap'') \<Rightarrow>
                   Inr (w, Trie (ch cur) (flags cur) ((child cur)[nat ix := Some n']),
                        a + a', heap''))))"

text \<open>
  \<^verbatim>\<open>trieAddWord\<close> returns \<open>(bSuccess, wordAdded, bCB, heap)\<close>. With a
  \<^verbatim>\<open>NULL\<close> dictionary the first letter that passes the histogram test
  dereferences \<^verbatim>\<open>NULL\<close>; with an empty word \<^verbatim>\<open>prevNode\<close> is still the root
  and the assertion \<^verbatim>\<open>prevNode != bCB->dict\<close> fails.
\<close>

definition trieAddWord :: "BoggleCB \<Rightarrow> string \<Rightarrow> nat \<Rightarrow> error + (bool \<times> bool \<times> BoggleCB \<times> nat)" where
  "trieAddWord bCB word heap =
     (case dict bCB of
        None \<Rightarrow>
          (case word of
             [] \<Rightarrow> Inr (True, False, bCB, heap)
           | c # cs \<Rightarrow>
               if \<not> inRange (getCharIndex c) (histogram bCB) then Inl OutOfBounds
               else if histogram bCB ! nat (getCharIndex c) = 0 then Inr (True, False, bCB, heap)
               else Inl NullDeref)
      | Some root \<Rightarrow>
          (case word of
             [] \<Rightarrow> Inl AssertFail
           | c # cs \<Rightarrow>
               (case trieDescend (histogram bCB) root word heap of
                  Inl e \<Rightarrow> Inl e
                | Inr (w, root', a, heap') \<Rightarrow>
                    Inr (w \<noteq> NoMemory, w = Completed,
                         bCB\<lparr>dict := Some root', trieAllocCalls := trieAllocCalls bCB + a\<rparr>,
                         heap'))))"

text \<open>\<^verbatim>\<open>initBoggle\<close> counts the root allocation without testing its result.\<close>

definition initBoggle :: "BoggleCB \<Rightarrow> nat \<Rightarrow> BoggleCB \<times> nat" where
  "initBoggle bCB heap =
     (case trieAllocNode heap of
        (n, heap') \<Rightarrow> (bCB\<lparr>trieAllocCalls := 1, trieFreeCalls := 0, dict := n\<rparr>, heap'))"

text \<open>
  \<^verbatim>\<open>chop\<close> on a line as \<^verbatim>\<open>fgets\<close> returns it: the trailing characters that are
  not letters are overwritten with \<open>NUL\<close>. On a line without any letter the
  loop reads \<^verbatim>\<open>buf[-1]\<close>.
\<close>

function chop :: "string \<Rightarrow> error + string" where
  "chop buf =
     (if buf = [] then Inl OutOfBounds
      else if \<not> isalpha (charValue (last buf)) then chop (butlast buf)
      else Inr buf)"
  by pat_completeness auto
termination
  by (relation "measure length") auto

declare chop.simps [simp del]

text \<open>
  The loop of \<^verbatim>\<open>trieBuild\<close> over the lines of the dictionary file. It returns
  \<open>(bSuccess, bCB, heap, wordCount)\<close>.
\<close>

fun trieBuildLoop :: "BoggleCB \<Rightarrow> int \<Rightarrow> string list \<Rightarrow> nat \<Rightarrow> nat \<Rightarrow> error + (bool \<times> BoggleCB \<times> nat \<times> nat)" where
  "trieBuildLoop bCB maxStringLength [] heap wordCount = Inr (True, bCB, heap, wordCount)"
| "trieBuildLoop bCB maxStringLength (buf # lines) heap wordCount =
     (case chop buf of
        Inl e \<Rightarrow> Inl e
      | Inr word \<Rightarrow>
          if int (length word) \<le> maxStringLength then
            (case trieAddWord bCB word heap of
               Inl e \<Rightarrow> Inl e
             | Inr (ok, wordAdded, bCB', heap') \<Rightarrow>
                 if \<not> ok then Inr (False, bCB', heap', wordCount)
                 else trieBuildLoop bCB' maxStringLength lines heap'
                        (if wordAdded then wordCount + 1 else wordCount))
          else trieBuildLoop bCB maxStringLength lines heap wordCount)"

text \<open>
  \<^verbatim>\<open>trieBuild\<close>, given the lines of the dictionary file, each as \<^verbatim>\<open>fgets\<close> returns
  it. \<^verbatim>\<open>maxStringLength\<close> is computed once, before the loop.
\<close>

definition trieBuild :: "BoggleCB \<Rightarrow> string list \<Rightarrow> nat \<Rightarrow> error + (bool \<times> BoggleCB \<times> nat \<times> nat)" where
  "trieBuild bCB lines heap =
     trieBuildLoop bCB (boardSize bCB * boardSize bCB) lines heap 0"

section \<open>Tearing the dictionary down\<close>

text \<open>
  \<^verbatim>\<open>trieFree(bCB, &p)\<close> frees the children of \<open>*p\<close> in index order, then the node,
  sets \<open>p\<close> to \<^verbatim>\<open>NULL\<close> and counts one call. It returns the control block and
  the new value of \<open>p\<close>.
\<close>

fun trieFree :: "BoggleCB \<Rightarrow> Trie option \<Rightarrow> BoggleCB \<times> Trie option"
  and trieFreeChildren :: "BoggleCB \<Rightarrow> Trie option list \<Rightarrow> BoggleCB \<times> Trie option list" where
  "trieFree bCB None = (bCB, None)"
| "trieFree bCB (Some (Trie c f ps)) =
     (case trieFreeChildren bCB ps of
        (bCB', cs) \<Rightarrow> (bCB'\<lparr>trieFreeCalls := trieFreeCalls bCB' + 1\<rparr>, None))"
| "trieFreeChildren bCB [] = (bCB, [])"
| "trieFreeChildren bCB (p # ps) =
     (case trieFree bCB p of
        (bCB', p') \<Rightarrow>
          (case trieFreeChildren bCB' ps of (bCB'', ps') \<Rightarrow> (bCB'', p' # ps')))"

text \<open>The call of \<^verbatim>\<open>main\<close>: \<^verbatim>\<open>trieFree(&bCB, &bCB.dict)\<close>.\<close>

definition teardown :: "BoggleCB \<Rightarrow> BoggleCB" where
  "teardown bCB = (case trieFree bCB (dict bCB) of (bCB', p) \<Rightarrow> bCB'\<lparr>dict := p\<rparr>)"

section \<open>Setting up the control block\<close>

text \<open>
  The histogram loop of \<^verbatim>\<open>main\<close>, over the cells of the board in index order,
  with its assertion \<^verbatim>\<open>arrayIndex < ALPHABET_SIZE\<close>.
\<close>

fun countLetters :: "string \<Rightarrow> int list \<Rightarrow> error + int list" where
  "countLetters [] h = Inr h"
| "countLetters (c # cs) h =
     (let arrayIndex = getCharIndex c in
      if \<not> arrayIndex < int ALPHABET_SIZE then Inl AssertFail
      else if \<not> inRange arrayIndex h then Inl OutOfBounds
      else countLetters cs (h[nat arrayIndex := h ! nat arrayIndex + 1]))"

text \<open>
  The control block of \<^verbatim>\<open>main\<close> after its \<^verbatim>\<open>memset\<close>: every field is zero, and
  the three arrays, not yet allocated, are empty.
\<close>

definition zeroCB :: BoggleCB where
  "zeroCB = \<lparr>search = replicate MAX_WORD_LENGTH NUL, dict = None, histogram = [], board = [],
     used = [], trieAllocCalls = 0, trieFreeCalls = 0, boardSize = 0, maxBoardSize = 0\<rparr>"

text \<open>
  \<^verbatim>\<open>main\<close> up to the call of \<^verbatim>\<open>trieBuild\<close>, without the file input:
  \<^verbatim>\<open>initBoggle\<close> on the zeroed control block, then the board of size \<open>n\<close> with
  the cells \<open>cells\<close> read from the file, its histogram, and the cleared mask.
\<close>

definition mainSetup :: "int \<Rightarrow> string \<Rightarrow> nat \<Rightarrow> error + (BoggleCB \<times> nat)" where
  "mainSetup n cells heap =
     (case initBoggle zeroCB heap of
        (bCB, heap') \<Rightarrow>
          (case countLetters cells (replicate ALPHABET_SIZE 0) of
             Inl e \<Rightarrow> Inl e
           | Inr h \<Rightarrow>
               Inr (bCB\<lparr>boardSize := n, histogram := h, board := cells,
                         maxBoardSize := n * n, used := replicate (nat (n * n)) False\<rparr>,
                    heap')))"

section \<open>The search\<close>

text \<open>
  \<^verbatim>\<open>printf("%s", bCB->search)\<close> prints the buffer up to its first \<open>NUL\<close>; a
  buffer without one would be read past its end.
\<close>

definition cstr :: "char list \<Rightarrow> string" where
  "cstr buf = takeWhile (\<lambda>c. c \<noteq> NUL) buf"

definition cstring :: "char list \<Rightarrow> error + string" where
  "cstring buf = (if NUL \<in> set buf then Inr (cstr buf) else Inl OutOfBounds)"

definition markUnused :: "BoggleCB \<Rightarrow> int \<Rightarrow> int \<Rightarrow> int \<Rightarrow> error + BoggleCB" where
  "markUnused bCB row col stringIndex =
     (let boardIndex = getBoardIndex bCB row col in
      if \<not> inRange boardIndex (used bCB) then Inl OutOfBounds
      else if \<not> (used bCB ! nat boardIndex) then Inl AssertFail
      else if \<not> inRange stringIndex (search bCB) then Inl OutOfBounds
      else Inr (bCB\<lparr>used := (used bCB)[nat boardIndex := False],
                     search := (search bCB)[nat stringIndex := NUL]\<rparr>))"

definition markUsed :: "BoggleCB \<Rightarrow> int \<Rightarrow> int \<Rightarrow> int \<Rightarrow> error + BoggleCB" where
  "markUsed bCB row col stringIndex =
     (let boardIndex = getBoardIndex bCB row col in
      if \<not> inRange boardIndex (used bCB) then Inl OutOfBounds
      else if used bCB ! nat boardIndex then Inl AssertFail
      else if \<not> inRange boardIndex (board bCB) then Inl OutOfBounds
      else if \<not> inRange stringIndex (search bCB) then Inl OutOfBounds
      else Inr (bCB\<lparr>used := (used bCB)[nat boardIndex := True],
                     search := (search bCB)[nat stringIndex := board bCB ! nat boardIndex]\<rparr>))"

text \<open>
  \<^verbatim>\<open>isValid\<close>, with the short-circuit order of its condition. The bound
  test lets \<open>boardIndex = maxBoardSize\<close> through to the read of \<open>used\<close>.
\<close>

definition isValid :: "BoggleCB \<Rightarrow> int \<Rightarrow> Trie \<Rightarrow> error + bool" where
  "isValid bCB boardIndex node =
     (if boardIndex \<ge> 0 \<and> boardIndex \<le> maxBoardSize bCB then
        if \<not> inRange boardIndex (used bCB) then Inl OutOfBounds
        else if used bCB ! nat boardIndex then Inr False
        else if \<not> inRange boardIndex (board bCB) then Inl OutOfBounds
        else if \<not> inRange (getCharIndex (board bCB ! nat boardIndex)) (child node)
          then Inl OutOfBounds
        else Inr (child node ! nat (getCharIndex (board bCB ! nat boardIndex)) \<noteq> None)
      else Inr False)"

lemma size_child_less:
  "i < length (child t) \<Longrightarrow> size_option size (child t ! i) < size t"
  apply (cases t) apply simp
  by (metis less_Suc_eq_le nth_mem size_list_estimation' order_refl not_less_eq_eq)

lemma isValid_TrueD:
  assumes "isValid bCB m t = Inr True"
  shows "inRange m (used bCB)" and "\<not> used bCB ! nat m" and "inRange m (board bCB)"
    and "inRange (getCharIndex (board bCB ! nat m)) (child t)"
    and "child t ! nat (getCharIndex (board bCB ! nat m)) \<noteq> None"
  using assms by (auto simp: isValid_def split: if_splits)

lemma isValid_child_size:
  assumes "isValid bCB m t = Inr True"
  shows "size_option size (child t ! nat (getCharIndex (board bCB ! nat m))) < size t"
proof -
  have "nat (getCharIndex (board bCB ! nat m)) < length (child t)"
    using isValid_TrueD(4)[OF assms] by (auto simp: inRange_def)
  then show ?thesis by (rule size_child_less)
qed

text \<open>
  A line of output: \<^verbatim>\<open>Found word %s (%d,%d)\<close>. \<open>report\<close> is the first
  statement of \<^verbatim>\<open>findSolution\<close>: on a node flagged as a word it prints the
  buffer and the arguments \<open>row\<close> and \<open>col\<close> of the call.
\<close>

type_synonym found = "string \<times> int \<times> int"

definition report :: "BoggleCB \<Rightarrow> Trie \<Rightarrow> int \<Rightarrow> int \<Rightarrow> error + found list" where
  "report bCB t row col =
     (if flags t AND FLAGS_ISWORD \<noteq> 0
      then (case cstring (search bCB) of Inl e \<Rightarrow> Inl e | Inr w \<Rightarrow> Inr [(w, row, col)])
      else Inr [])"

text \<open>
  \<^verbatim>\<open>findSolution\<close> and its two nested \<^verbatim>\<open>for\<close> loops: \<open>findRows\<close> is the
  loop over \<open>rowDiff\<close>, \<open>findCols\<close> the loop over \<open>colDiff\<close>, and \<open>tryMove\<close>
  the body of the inner loop for the cell \<open>(newRow, newCol)\<close>. Each returns the
  control block and the lines it printed, in order.
\<close>

function findSolution :: "BoggleCB \<Rightarrow> int \<Rightarrow> int \<Rightarrow> Trie option \<Rightarrow> int \<Rightarrow> error + (BoggleCB \<times> found list)"
  and findRows :: "BoggleCB \<Rightarrow> int \<Rightarrow> int \<Rightarrow> Trie \<Rightarrow> int \<Rightarrow> int \<Rightarrow> error + (BoggleCB \<times> found list)"
  and findCols :: "BoggleCB \<Rightarrow> int \<Rightarrow> int \<Rightarrow> Trie \<Rightarrow> int \<Rightarrow> int \<Rightarrow> int \<Rightarrow> error + (BoggleCB \<times> found list)"
  and tryMove :: "BoggleCB \<Rightarrow> Trie \<Rightarrow> int \<Rightarrow> int \<Rightarrow> int \<Rightarrow> error + (BoggleCB \<times> found list)"
  where
  "findSolution bCB row col node stringIndex =
     (case node of
        None \<Rightarrow> Inl AssertFail
      | Some t \<Rightarrow>
          (case report bCB t row col of
             Inl e \<Rightarrow> Inl e
           | Inr out \<Rightarrow>
                (case findRows bCB row col t stringIndex (- 1) of
                   Inl e \<Rightarrow> Inl e
                 | Inr (bCB', out') \<Rightarrow> Inr (bCB', out @ out'))))"
| "findRows bCB row col t stringIndex rowDiff =
     (if rowDiff < 2 then
        (case (if row + rowDiff \<ge> 0 \<and> row + rowDiff < boardSize bCB
               then findCols bCB row col t stringIndex rowDiff (- 1)
               else Inr (bCB, []))
         of Inl e \<Rightarrow> Inl e
          | Inr (bCB1, out1) \<Rightarrow>
              (case findRows bCB1 row col t stringIndex (rowDiff + 1) of
                 Inl e \<Rightarrow> Inl e
               | Inr (bCB2, out2) \<Rightarrow> Inr (bCB2, out1 @ out2)))
      else Inr (bCB, []))"
| "findCols bCB row col t stringIndex rowDiff colDiff =
     (if colDiff < 2 then
        (case tryMove bCB t stringIndex (row + rowDiff) (col + colDiff) of
           Inl e \<Rightarrow> Inl e
         | Inr (bCB1, out1) \<Rightarrow>
             (case findCols bCB1 row col t stringIndex rowDiff (colDiff + 1) of
                Inl e \<Rightarrow> Inl e
              | Inr (bCB2, out2) \<Rightarrow> Inr (bCB2, out1 @ out2)))
      else Inr (bCB, []))"
| "tryMove bCB t stringIndex newRow newCol =
     (let move = getBoardIndex bCB newRow newCol
      in case (if newCol \<ge> 0 \<and> newCol < boardSize bCB
               then isValid bCB move t else Inr False)
         of Inl e \<Rightarrow> Inl e
          | Inr valid \<Rightarrow>
              if valid then
                (let newIx = getCharIndex (board bCB ! nat move)
                 in case markUsed bCB newRow newCol stringIndex of
                      Inl e \<Rightarrow> Inl e
                    | Inr bCB1 \<Rightarrow>
                        (case findSolution bCB1 newRow newCol
                                (child t ! nat newIx) (stringIndex + 1) of
                           Inl e \<Rightarrow> Inl e
                         | Inr (bCB2, out) \<Rightarrow>
                             (case markUnused bCB2 newRow newCol stringIndex of
                                Inl e \<Rightarrow> Inl e
                              | Inr bCB3 \<Rightarrow> Inr (bCB3, out))))
              else Inr (bCB, []))"
  by pat_completeness auto
termination
  apply (relation "measures [
     (\<lambda>x. case x of Inl (Inl (b, r, c, n, i)) \<Rightarrow> size_option size n
                   | Inl (Inr (b, r, c, t, i, rd)) \<Rightarrow> size t
                   | Inr (Inl (b, r, c, t, i, rd, cd)) \<Rightarrow> size t
                   | Inr (Inr (b, t, i, r, c)) \<Rightarrow> size t),
     (\<lambda>x. case x of Inl (Inl (b, r, c, n, i)) \<Rightarrow> 0
                   | Inl (Inr (b, r, c, t, i, rd)) \<Rightarrow> 5 + nat (2 - rd)
                   | Inr (Inl (b, r, c, t, i, rd, cd)) \<Rightarrow> 1 + nat (2 - cd)
                   | Inr (Inr (b, t, i, r, c)) \<Rightarrow> 0)]")
        apply simp_all
  apply (auto split: if_splits dest: isValid_child_size)
  done

declare findSolution.simps [simp del] findRows.simps [simp del] findCols.simps [simp del]
  tryMove.simps [simp del]

subsection \<open>The search with its call stack made visible\<close>

text \<open>
  The path of a word is not a value of the C program: it is the chain of
  the active calls of \<^verbatim>\<open>findSolution\<close>. The functions below are the same
  code with one more argument, \<open>path\<close>, the cells \<open>(row, col)\<close> of the active
  calls from the first one to the current one, and they record one \<open>visit\<close>
  per call of \<^verbatim>\<open>findSolution\<close> that has passed its assertion: its arguments
  \<open>row\<close>, \<open>col\<close>, \<open>node\<close> and \<open>stringIndex\<close>, the path, the mask and the buffer
  it found on entry, what it printed itself, and the mask and the buffer it
  left on return. \<open>path\<close> is never read by the code; \<open>findSolutionT_erase\<close>
  below shows that dropping it gives \<open>findSolution\<close>.
\<close>

type_synonym cell = "int \<times> int"

record visit =
  v_row :: int
  v_col :: int
  v_node :: Trie
  v_index :: int
  v_path :: "cell list"
  v_used :: "bool list"
  v_search :: "char list"
  v_printed :: "found list"
  v_used_out :: "bool list"
  v_search_out :: "char list"

definition printed :: "visit list \<Rightarrow> found list" where
  "printed vs = concat (map v_printed vs)"

definition erase :: "error + (BoggleCB \<times> visit list) \<Rightarrow> error + (BoggleCB \<times> found list)" where
  "erase r = (case r of Inl e \<Rightarrow> Inl e | Inr (bCB, vs) \<Rightarrow> Inr (bCB, printed vs))"

function findSolutionT :: "BoggleCB \<Rightarrow> cell list \<Rightarrow> int \<Rightarrow> int \<Rightarrow> Trie option \<Rightarrow> int \<Rightarrow> error + (BoggleCB \<times> visit list)"
  and findRowsT :: "BoggleCB \<Rightarrow> cell list \<Rightarrow> int \<Rightarrow> int \<Rightarrow> Trie \<Rightarrow> int \<Rightarrow> int \<Rightarrow> error + (BoggleCB \<times> visit list)"
  and findColsT :: "BoggleCB \<Rightarrow> cell list \<Rightarrow> int \<Rightarrow> int \<Rightarrow> Trie \<Rightarrow> int \<Rightarrow> int \<Rightarrow> int \<Rightarrow> error + (BoggleCB \<times> visit list)"
  and tryMoveT :: "BoggleCB \<Rightarrow> cell list \<Rightarrow> Trie \<Rightarrow> int \<Rightarrow> int \<Rightarrow> int \<Rightarrow> error + (BoggleCB \<times> visit list)"
  where
  "findSolutionT bCB path row col node stringIndex =
     (case node of
        None \<Rightarrow> Inl AssertFail
      | Some t \<Rightarrow>
          (case report bCB t row col of
             Inl e \<Rightarrow> Inl e
           | Inr out \<Rightarrow>
                (case findRowsT bCB path row col t stringIndex (- 1) of
                   Inl e \<Rightarrow> Inl e
                 | Inr (bCB', vs) \<Rightarrow>
                     Inr (bCB', \<lparr>v_row = row, v_col = col, v_node = t, v_index = stringIndex,
                                 v_path = path, v_used = used bCB,
                                 v_search = search bCB, v_printed = out,
                                 v_used_out = used bCB', v_search_out = search bCB'\<rparr> # vs))))"
| "findRowsT bCB path row col t stringIndex rowDiff =
     (if rowDiff < 2 then
        (case (if row + rowDiff \<ge> 0 \<and> row + rowDiff < boardSize bCB
               then findColsT bCB path row col t stringIndex rowDiff (- 1)
               else Inr (bCB, []))
         of Inl e \<Rightarrow> Inl e
          | Inr (bCB1, vs1) \<Rightarrow>
              (case findRowsT bCB1 path row col t stringIndex (rowDiff + 1) of
                 Inl e \<Rightarrow> Inl e
               | Inr (bCB2, vs2) \<Rightarrow> Inr (bCB2, vs1 @ vs2)))
      else Inr (bCB, []))"
| "findColsT bCB path row col t stringIndex rowDiff colDiff =
     (if colDiff < 2 then
        (case tryMoveT bCB path t stringIndex (row + rowDiff) (col + colDiff) of
           Inl e \<Rightarrow> Inl e
         | Inr (bCB1, vs1) \<Rightarrow>
             (case findColsT bCB1 path row col t stringIndex rowDiff (colDiff + 1) of
                Inl e \<Rightarrow> Inl e
              | Inr (bCB2, vs2) \<Rightarrow> Inr (bCB2, vs1 @ vs2)))
      else Inr (bCB, []))"
| "tryMoveT bCB path t stringIndex newRow newCol =
     (let move = getBoardIndex bCB newRow newCol
      in case (if newCol \<ge> 0 \<and> newCol < boardSize bCB
               then isValid bCB move t else Inr False)
         of Inl e \<Rightarrow> Inl e
          | Inr valid \<Rightarrow>
              if valid then
                (let newIx = getCharIndex (board bCB ! nat move)
                 in case markUsed bCB newRow newCol stringIndex of
                      Inl e \<Rightarrow> Inl e
                    | Inr bCB1 \<Rightarrow>
                        (case findSolutionT bCB1 (path @ [(newRow, newCol)]) newRow newCol
                                (child t ! nat newIx) (stringIndex + 1) of
                           Inl e \<Rightarrow> Inl e
                         | Inr (bCB2, vs) \<Rightarrow>
                             (case markUnused bCB2 newRow newCol stringIndex of
                                Inl e \<Rightarrow> Inl e
                              | Inr bCB3 \<Rightarrow> Inr (bCB3, vs))))
              else Inr (bCB, []))"
  by pat_completeness auto
termination
  apply (relation "measures [
     (\<lambda>x. case x of Inl (Inl (b, p, r, c, n, i)) \<Rightarrow> size_option size n
                   | Inl (Inr (b, p, r, c, t, i, rd)) \<Rightarrow> size t
                   | Inr (Inl (b, p, r, c, t, i, rd, cd)) \<Rightarrow> size t
                   | Inr (Inr (b, p, t, i, r, c)) \<Rightarrow> size t),
     (\<lambda>x. case x of Inl (Inl (b, p, r, c, n, i)) \<Rightarrow> 0
                   | Inl (Inr (b, p, r, c, t, i, rd)) \<Rightarrow> 5 + nat (2 - rd)
                   | Inr (Inl (b, p, r, c, t, i, rd, cd)) \<Rightarrow> 1 + nat (2 - cd)
                   | Inr (Inr (b, p, t, i, r, c)) \<Rightarrow> 0)]")
        apply simp_all
  apply (auto split: if_splits dest: isValid_child_size)
  done

declare findSolutionT.simps [simp del] findRowsT.simps [simp del] findColsT.simps [simp del]
  tryMoveT.simps [simp del]

lemma printed_simps [simp]: "printed [] = []" "printed (vs @ ws) = printed vs @ printed ws"
  "printed (v # vs) = v_printed v @ printed vs"
  by (simp_all add: printed_def)

lemma erase_simps [simp]: "erase (Inl e) = Inl e" "erase (Inr (b, vs)) = Inr (b, printed vs)"
  by (simp_all add: erase_def)

lemma findSolutionT_erase:
  "findSolution bCB row col node i = erase (findSolutionT bCB path row col node i)"
  "findRows bCB row col t i rd = erase (findRowsT bCB path row col t i rd)"
  "findCols bCB row col t i rd cd = erase (findColsT bCB path row col t i rd cd)"
  "tryMove bCB t i nr nc = erase (tryMoveT bCB path t i nr nc)"
proof (induction bCB path row col node i and bCB path row col t i rd and  bCB path row col t i rd cd
     and bCB path t i nr nc rule: findSolutionT_findRowsT_findColsT_tryMoveT.induct)
  case (1 bCB path row col node stringIndex)
  show ?case
  proof (cases node)
    case None
    then show ?thesis by (simp add: findSolution.simps findSolutionT.simps)
  next
    case (Some t)
    define F where "F = report bCB t row col"
    have u: "findSolution bCB row col node stringIndex =
        (case F of Inl e \<Rightarrow> Inl e | Inr out \<Rightarrow>
           (case findRows bCB row col t stringIndex (- 1) of
                   Inl e \<Rightarrow> Inl e
                 | Inr (bCB', out') \<Rightarrow> Inr (bCB', out @ out')))"
      by (simp add: findSolution.simps[of bCB] Some F_def)
    have uT: "findSolutionT bCB path row col node stringIndex =
        (case F of Inl e \<Rightarrow> Inl e | Inr out \<Rightarrow>
           (case findRowsT bCB path row col t stringIndex (- 1) of
                   Inl e \<Rightarrow> Inl e
                 | Inr (bCB', vs) \<Rightarrow> Inr (bCB', \<lparr>v_row = row, v_col = col, v_node = t, v_index = stringIndex,
                                 v_path = path, v_used = used bCB,
                                 v_search = search bCB, v_printed = out,
                                 v_used_out = used bCB', v_search_out = search bCB'\<rparr> # vs)))"
      by (simp add: findSolutionT.simps[of bCB] Some F_def)
    show ?thesis
    proof (cases F)
      case (Inl e)
      then show ?thesis by (simp add: u uT)
    next
      case (Inr out)
      from 1[OF Some Inr[unfolded F_def]]
      show ?thesis by (simp add: u uT Inr split: sum.split)
    qed
  qed
next
  case (2 bCB path row col t stringIndex rowDiff)
  show ?case
  proof (cases "rowDiff < 2")
    case False
    then show ?thesis by (simp add: findRows.simps findRowsT.simps)
  next
    case lt: True
    define X where "X = (if row + rowDiff \<ge> 0 \<and> row + rowDiff < boardSize bCB
               then findColsT bCB path row col t stringIndex rowDiff (- 1)
               else Inr (bCB, []))"
    have e1: "(if row + rowDiff \<ge> 0 \<and> row + rowDiff < boardSize bCB
               then findCols bCB row col t stringIndex rowDiff (- 1)
               else Inr (bCB, [])) = erase X"
      using 2(1)[OF lt] by (simp add: X_def)
    have u: "findRows bCB row col t stringIndex rowDiff =
        (case erase X of Inl e \<Rightarrow> Inl e
          | Inr (bCB1, out1) \<Rightarrow>
              (case findRows bCB1 row col t stringIndex (rowDiff + 1) of
                 Inl e \<Rightarrow> Inl e
               | Inr (bCB2, out2) \<Rightarrow> Inr (bCB2, out1 @ out2)))"
      by (subst findRows.simps) (simp only: lt if_True e1)
    have uT: "findRowsT bCB path row col t stringIndex rowDiff =
        (case X of Inl e \<Rightarrow> Inl e
          | Inr (bCB1, vs1) \<Rightarrow>
              (case findRowsT bCB1 path row col t stringIndex (rowDiff + 1) of
                 Inl e \<Rightarrow> Inl e
               | Inr (bCB2, vs2) \<Rightarrow> Inr (bCB2, vs1 @ vs2)))"
      by (subst findRowsT.simps) (simp only: lt if_True X_def)
    show ?thesis
    proof (cases X)
      case (Inl e)
      then show ?thesis by (simp add: u uT)
    next
      case (Inr p)
      obtain b1 vs1 where p: "p = (b1, vs1)" by (cases p)
      from 2(2)[OF lt Inr[unfolded X_def] p[symmetric]]
      show ?thesis by (simp add: u uT Inr p split: sum.split)
    qed
  qed
next
  case (3 bCB path row col t stringIndex rowDiff colDiff)
  show ?case
  proof (cases "colDiff < 2")
    case False
    then show ?thesis by (simp add: findCols.simps findColsT.simps)
  next
    case lt: True
    define X where "X = tryMoveT bCB path t stringIndex (row + rowDiff) (col + colDiff)"
    have u: "findCols bCB row col t stringIndex rowDiff colDiff =
        (case erase X of Inl e \<Rightarrow> Inl e
          | Inr (bCB1, out1) \<Rightarrow>
              (case findCols bCB1 row col t stringIndex rowDiff (colDiff + 1) of
                 Inl e \<Rightarrow> Inl e
               | Inr (bCB2, out2) \<Rightarrow> Inr (bCB2, out1 @ out2)))"
      by (subst findCols.simps) (simp only: lt if_True 3(1)[OF lt] X_def)
    have uT: "findColsT bCB path row col t stringIndex rowDiff colDiff =
        (case X of Inl e \<Rightarrow> Inl e
          | Inr (bCB1, vs1) \<Rightarrow>
              (case findColsT bCB1 path row col t stringIndex rowDiff (colDiff + 1) of
                 Inl e \<Rightarrow> Inl e
               | Inr (bCB2, vs2) \<Rightarrow> Inr (bCB2, vs1 @ vs2)))"
      by (subst findColsT.simps) (simp only: lt if_True X_def)
    show ?thesis
    proof (cases X)
      case (Inl e)
      then show ?thesis by (simp add: u uT)
    next
      case (Inr p)
      obtain b1 vs1 where p: "p = (b1, vs1)" by (cases p)
      from 3(2)[OF lt Inr[unfolded X_def] p[symmetric]]
      show ?thesis by (simp add: u uT Inr p split: sum.split)
    qed
  qed
next
  case (4 bCB path t stringIndex newRow newCol)
  define move where "move = getBoardIndex bCB newRow newCol"
  define V where "V = (if newCol \<ge> 0 \<and> newCol < boardSize bCB
                  then isValid bCB move t else Inr False)"
  define newIx where "newIx = getCharIndex (board bCB ! nat move)"
  have u: "tryMove bCB t stringIndex newRow newCol =
     (case V of Inl e \<Rightarrow> Inl e
          | Inr valid \<Rightarrow>
              if valid then
                (case markUsed bCB newRow newCol stringIndex of
                      Inl e \<Rightarrow> Inl e
                    | Inr bCB1 \<Rightarrow>
                        (case findSolution bCB1 newRow newCol
                                (child t ! nat newIx) (stringIndex + 1) of
                           Inl e \<Rightarrow> Inl e
                         | Inr (bCB2, out) \<Rightarrow>
                             (case markUnused bCB2 newRow newCol stringIndex of
                                Inl e \<Rightarrow> Inl e
                              | Inr bCB3 \<Rightarrow> Inr (bCB3, out))))
              else Inr (bCB, []))"
    by (subst tryMove.simps) (simp only: Let_def V_def move_def newIx_def)
  have uT: "tryMoveT bCB path t stringIndex newRow newCol =
     (case V of Inl e \<Rightarrow> Inl e
          | Inr valid \<Rightarrow>
              if valid then
                (case markUsed bCB newRow newCol stringIndex of
                      Inl e \<Rightarrow> Inl e
                    | Inr bCB1 \<Rightarrow>
                        (case findSolutionT bCB1 (path @ [(newRow, newCol)]) newRow newCol
                                (child t ! nat newIx) (stringIndex + 1) of
                           Inl e \<Rightarrow> Inl e
                         | Inr (bCB2, vs) \<Rightarrow>
                             (case markUnused bCB2 newRow newCol stringIndex of
                                Inl e \<Rightarrow> Inl e
                              | Inr bCB3 \<Rightarrow> Inr (bCB3, vs))))
              else Inr (bCB, []))"
    by (subst tryMoveT.simps) (simp only: Let_def V_def move_def newIx_def)
  show ?case
  proof (cases V)
    case (Inl e)
    then show ?thesis by (simp add: u uT)
  next
    case (Inr valid)
    show ?thesis
    proof (cases valid)
      case False
      then show ?thesis by (simp add: u uT Inr)
    next
      case True
      show ?thesis
      proof (cases "markUsed bCB newRow newCol stringIndex")
        case (Inl e)
        then show ?thesis by (simp add: u uT Inr True)
      next
        case mu: (Inr bCB1)
        from 4[OF move_def Inr[unfolded V_def] True newIx_def mu]
        show ?thesis by (simp add: u uT Inr True mu split: sum.split)
      qed
    qed
  qed
qed

subsection \<open>Unfolding the search one step, and its induction rule\<close>

lemma findSolutionT_None: "findSolutionT bCB path row col None i = Inl AssertFail"
  by (simp add: findSolutionT.simps)

lemma findSolutionT_Some:
  "findSolutionT bCB path row col (Some t) i =
     (case report bCB t row col of
        Inl e \<Rightarrow> Inl e
      | Inr out \<Rightarrow>
          (case findRowsT bCB path row col t i (- 1) of
             Inl e \<Rightarrow> Inl e
           | Inr (bCB', vs) \<Rightarrow>
               Inr (bCB', \<lparr>v_row = row, v_col = col, v_node = t, v_index = i, v_path = path,
                           v_used = used bCB, v_search = search bCB, v_printed = out,
                           v_used_out = used bCB', v_search_out = search bCB'\<rparr> # vs)))"
  by (simp add: findSolutionT.simps[of bCB])

lemma findRowsT_stop: "\<not> rd < 2 \<Longrightarrow> findRowsT bCB path row col t i rd = Inr (bCB, [])"
  by (simp add: findRowsT.simps)

lemma findRowsT_skip:
  "rd < 2 \<Longrightarrow> \<not> (0 \<le> row + rd \<and> row + rd < boardSize bCB) \<Longrightarrow>
   findRowsT bCB path row col t i rd = findRowsT bCB path row col t i (rd + 1)"
  by (subst findRowsT.simps) (auto split: sum.split)

lemma findRowsT_step:
  "rd < 2 \<Longrightarrow> 0 \<le> row + rd \<Longrightarrow> row + rd < boardSize bCB \<Longrightarrow>
   findRowsT bCB path row col t i rd =
     (case findColsT bCB path row col t i rd (- 1) of
        Inl e \<Rightarrow> Inl e
      | Inr (bCB1, vs1) \<Rightarrow>
          (case findRowsT bCB1 path row col t i (rd + 1) of
             Inl e \<Rightarrow> Inl e
           | Inr (bCB2, vs2) \<Rightarrow> Inr (bCB2, vs1 @ vs2)))"
  by (subst findRowsT.simps) simp

lemma findColsT_stop: "\<not> cd < 2 \<Longrightarrow> findColsT bCB path row col t i rd cd = Inr (bCB, [])"
  by (simp add: findColsT.simps)

lemma findColsT_step:
  "cd < 2 \<Longrightarrow>
   findColsT bCB path row col t i rd cd =
     (case tryMoveT bCB path t i (row + rd) (col + cd) of
        Inl e \<Rightarrow> Inl e
      | Inr (bCB1, vs1) \<Rightarrow>
          (case findColsT bCB1 path row col t i rd (cd + 1) of
             Inl e \<Rightarrow> Inl e
           | Inr (bCB2, vs2) \<Rightarrow> Inr (bCB2, vs1 @ vs2)))"
  by (subst findColsT.simps) simp

lemma tryMoveT_skip:
  "\<not> (0 \<le> nc \<and> nc < boardSize bCB) \<Longrightarrow> tryMoveT bCB path t i nr nc = Inr (bCB, [])"
  by (subst tryMoveT.simps) auto

lemma tryMoveT_error:
  "0 \<le> nc \<Longrightarrow> nc < boardSize bCB \<Longrightarrow> isValid bCB (getBoardIndex bCB nr nc) t = Inl e \<Longrightarrow>
   tryMoveT bCB path t i nr nc = Inl e"
  by (subst tryMoveT.simps) simp

lemma tryMoveT_invalid:
  "0 \<le> nc \<Longrightarrow> nc < boardSize bCB \<Longrightarrow> isValid bCB (getBoardIndex bCB nr nc) t = Inr False \<Longrightarrow>
   tryMoveT bCB path t i nr nc = Inr (bCB, [])"
  by (subst tryMoveT.simps) simp

lemma tryMoveT_valid:
  "0 \<le> nc \<Longrightarrow> nc < boardSize bCB \<Longrightarrow> isValid bCB (getBoardIndex bCB nr nc) t = Inr True \<Longrightarrow>
   tryMoveT bCB path t i nr nc =
     (case markUsed bCB nr nc i of
        Inl e \<Rightarrow> Inl e
      | Inr bCB1 \<Rightarrow>
          (case findSolutionT bCB1 (path @ [(nr, nc)]) nr nc
                  (child t ! nat (getCharIndex (board bCB ! nat (getBoardIndex bCB nr nc))))
                  (i + 1) of
             Inl e \<Rightarrow> Inl e
           | Inr (bCB2, vs) \<Rightarrow>
               (case markUnused bCB2 nr nc i of
                  Inl e \<Rightarrow> Inl e
                | Inr bCB3 \<Rightarrow> Inr (bCB3, vs))))"
  by (subst tryMoveT.simps) (simp add: Let_def)

lemma search_induct [case_names Sol Rows Cols Move]:
  assumes Sol: "\<And>bCB path row col node i.
      (\<And>t out. node = Some t \<Longrightarrow> report bCB t row col = Inr out \<Longrightarrow> Q bCB path row col t i (- 1))
      \<Longrightarrow> P bCB path row col node i"
    and Rows: "\<And>bCB path row col t i rd.
      (rd < 2 \<Longrightarrow> 0 \<le> row + rd \<Longrightarrow> row + rd < boardSize bCB \<Longrightarrow> R bCB path row col t i rd (- 1))
      \<Longrightarrow> (\<And>b1 vs1. rd < 2 \<Longrightarrow> 0 \<le> row + rd \<Longrightarrow> row + rd < boardSize bCB \<Longrightarrow>
              findColsT bCB path row col t i rd (- 1) = Inr (b1, vs1) \<Longrightarrow>
              Q b1 path row col t i (rd + 1))
      \<Longrightarrow> (rd < 2 \<Longrightarrow> \<not> (0 \<le> row + rd \<and> row + rd < boardSize bCB) \<Longrightarrow>
              Q bCB path row col t i (rd + 1))
      \<Longrightarrow> Q bCB path row col t i rd"
    and Cols: "\<And>bCB path row col t i rd cd.
      (cd < 2 \<Longrightarrow> M bCB path t i (row + rd) (col + cd))
      \<Longrightarrow> (\<And>b1 vs1. cd < 2 \<Longrightarrow> tryMoveT bCB path t i (row + rd) (col + cd) = Inr (b1, vs1) \<Longrightarrow>
              R b1 path row col t i rd (cd + 1))
      \<Longrightarrow> R bCB path row col t i rd cd"
    and Move: "\<And>bCB path t i nr nc.
      (\<And>b1. 0 \<le> nc \<Longrightarrow> nc < boardSize bCB \<Longrightarrow>
            isValid bCB (getBoardIndex bCB nr nc) t = Inr True \<Longrightarrow>
            markUsed bCB nr nc i = Inr b1 \<Longrightarrow>
            P b1 (path @ [(nr, nc)]) nr nc
              (child t ! nat (getCharIndex (board bCB ! nat (getBoardIndex bCB nr nc)))) (i + 1))
      \<Longrightarrow> M bCB path t i nr nc"
  shows "P bCB path row col node i"
    and "Q bCB path row col t i rd"
    and "R bCB path row col t i rd cd"
    and "M bCB path t i nr nc"
proof (induction bCB path row col node i and bCB path row col t i rd and bCB path row col t i rd cd
     and bCB path t i nr nc rule: findSolutionT_findRowsT_findColsT_tryMoveT.induct)
  case (1 bCB path row col node stringIndex)
  show ?case
  proof (rule Sol)
    fix t out assume "node = Some t" "report bCB t row col = Inr out"
    then show "Q bCB path row col t stringIndex (- 1)"
      using 1[of t out] by simp
  qed
next
  case (2 bCB path row col t stringIndex rowDiff)
  show ?case
  proof (rule Rows)
    assume "rowDiff < 2" "0 \<le> row + rowDiff" "row + rowDiff < boardSize bCB"
    then show "R bCB path row col t stringIndex rowDiff (- 1)"
      using 2(1) by simp
  next
    fix b1 vs1
    assume "rowDiff < 2" "0 \<le> row + rowDiff" "row + rowDiff < boardSize bCB"
      "findColsT bCB path row col t stringIndex rowDiff (- 1) = Inr (b1, vs1)"
    then show "Q b1 path row col t stringIndex (rowDiff + 1)"
      using 2(2)[of "(b1, vs1)" b1 vs1] by simp
  next
    assume "rowDiff < 2" "\<not> (0 \<le> row + rowDiff \<and> row + rowDiff < boardSize bCB)"
    then show "Q bCB path row col t stringIndex (rowDiff + 1)"
      using 2(2)[of "(bCB, [])" bCB "[]"] by auto
  qed
next
  case (3 bCB path row col t stringIndex rowDiff colDiff)
  show ?case
  proof (rule Cols)
    assume "colDiff < 2"
    then show "M bCB path t stringIndex (row + rowDiff) (col + colDiff)"
      using 3(1) by simp
  next
    fix b1 vs1
    assume "colDiff < 2" "tryMoveT bCB path t stringIndex (row + rowDiff) (col + colDiff) = Inr (b1, vs1)"
    then show "R b1 path row col t stringIndex rowDiff (colDiff + 1)"
      using 3(2)[of "(b1, vs1)" b1 vs1] by simp
  qed
next
  case (4 bCB path t stringIndex newRow newCol)
  show ?case
  proof (rule Move)
    fix b1
    assume "0 \<le> newCol" "newCol < boardSize bCB"
      "isValid bCB (getBoardIndex bCB newRow newCol) t = Inr True"
      "markUsed bCB newRow newCol stringIndex = Inr b1"
    then show "P b1 (path @ [(newRow, newCol)]) newRow newCol
       (child t ! nat (getCharIndex (board bCB ! nat (getBoardIndex bCB newRow newCol))))
       (stringIndex + 1)"
      using 4[OF refl, of True _ b1] by simp
  qed
qed

subsection \<open>The search changes nothing but the mask and the buffer\<close>

definition sameStatic :: "BoggleCB \<Rightarrow> BoggleCB \<Rightarrow> bool" where
  "sameStatic a b = (b\<lparr>used := used a, search := search a\<rparr> = a
      \<and> length (used b) = length (used a) \<and> length (search b) = length (search a))"

lemma sameStatic_refl: "sameStatic a a"
  by (simp add: sameStatic_def)

lemma sameStatic_trans: "sameStatic a b \<Longrightarrow> sameStatic b c \<Longrightarrow> sameStatic a c"
  unfolding sameStatic_def
  by (cases a, cases b, cases c) simp

lemma markUsed_sameStatic: "markUsed b r c i = Inr b' \<Longrightarrow> sameStatic b b'"
  by (auto simp: markUsed_def sameStatic_def Let_def split: if_splits)

lemma markUnused_sameStatic: "markUnused b r c i = Inr b' \<Longrightarrow> sameStatic b b'"
  by (auto simp: markUnused_def sameStatic_def Let_def split: if_splits)

lemma findSolutionT_sameStatic:
  "\<forall>b' vs. findSolutionT bCB path row col node i = Inr (b', vs) \<longrightarrow> sameStatic bCB b'"
  "\<forall>b' vs. findRowsT bCB path row col t i rd = Inr (b', vs) \<longrightarrow> sameStatic bCB b'"
  "\<forall>b' vs. findColsT bCB path row col t i rd cd = Inr (b', vs) \<longrightarrow> sameStatic bCB b'"
  "\<forall>b' vs. tryMoveT bCB path t i nr nc = Inr (b', vs) \<longrightarrow> sameStatic bCB b'"
proof (induction bCB path row col node i and bCB path row col t i rd and bCB path row col t i rd cd
     and bCB path t i nr nc rule: search_induct)
  case (Sol bCB path row col node i)
  show ?case
  proof (cases node)
    case None
    then show ?thesis by (simp add: findSolutionT_None)
  next
    case (Some t)
    show ?thesis using Sol[OF Some]
      by (auto simp: Some findSolutionT_Some split: sum.splits)
  qed
next
  case (Rows bCB path row col t i rd)
  consider "\<not> rd < 2" | "rd < 2" "\<not> (0 \<le> row + rd \<and> row + rd < boardSize bCB)"
    | "rd < 2" "0 \<le> row + rd" "row + rd < boardSize bCB" by blast
  then show ?case
  proof cases
    case 1
    then show ?thesis by (simp add: findRowsT_stop sameStatic_refl)
  next
    case 2
    then show ?thesis using Rows(3) by (simp add: findRowsT_skip)
  next
    case 3
    show ?thesis using Rows(1)[OF 3] Rows(2)[OF 3]
      by (auto simp: findRowsT_step[OF 3] split: sum.splits intro: sameStatic_trans)
  qed
next
  case (Cols bCB path row col t i rd cd)
  show ?case
  proof (cases "cd < 2")
    case False
    then show ?thesis by (simp add: findColsT_stop sameStatic_refl)
  next
    case True
    show ?thesis using Cols(1)[OF True] Cols(2)[OF True]
      by (auto simp: findColsT_step[OF True] split: sum.splits intro: sameStatic_trans)
  qed
next
  case (Move bCB path t i nr nc)
  show ?case
  proof (cases "0 \<le> nc \<and> nc < boardSize bCB")
    case False
    then show ?thesis by (simp add: tryMoveT_skip sameStatic_refl)
  next
    case True
    then have nc: "0 \<le> nc" "nc < boardSize bCB" by simp_all
    show ?thesis
    proof (cases "isValid bCB (getBoardIndex bCB nr nc) t")
      case (Inl e)
      then show ?thesis by (simp add: tryMoveT_error[OF nc])
    next
      case (Inr v)
      show ?thesis
      proof (cases v)
        case False
        then show ?thesis using Inr by (simp add: tryMoveT_invalid[OF nc] sameStatic_refl)
      next
        case True
        with Inr have v: "isValid bCB (getBoardIndex bCB nr nc) t = Inr True" by simp
        show ?thesis
        proof (intro allI impI)
          fix b' vs assume r: "tryMoveT bCB path t i nr nc = Inr (b', vs)"
          then obtain b1 b2 where mu: "markUsed bCB nr nc i = Inr b1"
            and fs: "findSolutionT b1 (path @ [(nr, nc)]) nr nc
                  (child t ! nat (getCharIndex (board bCB ! nat (getBoardIndex bCB nr nc))))
                  (i + 1) = Inr (b2, vs)"
            and mun: "markUnused b2 nr nc i = Inr b'"
            by (auto simp: tryMoveT_valid[OF nc v] split: sum.splits)
          from Move[OF nc v mu] fs have "sameStatic b1 b2" by blast
          with markUsed_sameStatic[OF mu] markUnused_sameStatic[OF mun]
          show "sameStatic bCB b'" by (blast intro: sameStatic_trans)
        qed
      qed
    qed
  qed
qed

lemma findSolution_sameStatic:
  assumes "findSolution bCB row col node i = Inr (b', out)"
  shows "sameStatic bCB b'"
proof (cases "findSolutionT bCB [] row col node i")
  case (Inl e)
  with assms show ?thesis by (simp add: findSolutionT_erase(1)[of bCB row col node i "[]"])
next
  case (Inr p)
  with assms have "fst p = b'"
    by (cases p) (simp add: findSolutionT_erase(1)[of bCB row col node i "[]"])
  with Inr findSolutionT_sameStatic(1)[of bCB "[]" row col node i] show ?thesis
    by (cases p) auto
qed

section \<open>The driver\<close>

text \<open>
  The body of the inner loop of \<^verbatim>\<open>playBoggle\<close> for the cell \<open>(i, j)\<close>: the
  node passed to \<^verbatim>\<open>findSolution\<close> is \<^verbatim>\<open>bCB->dict->child[charIndex]\<close>, whether
  or not it is \<^verbatim>\<open>NULL\<close>.
\<close>

definition playCell :: "BoggleCB \<Rightarrow> int \<Rightarrow> int \<Rightarrow> error + (BoggleCB \<times> found list)" where
  "playCell bCB i j =
     (case markUsed bCB i j 0 of
        Inl e \<Rightarrow> Inl e
      | Inr bCB1 \<Rightarrow>
          (let charIndex = getCharIndex (board bCB1 ! nat (getBoardIndex bCB1 i j))
           in case dict bCB1 of
                None \<Rightarrow> Inl NullDeref
              | Some root \<Rightarrow>
                  if \<not> inRange charIndex (child root) then Inl OutOfBounds
                  else
                    (case findSolution bCB1 i j (child root ! nat charIndex) 1 of
                       Inl e \<Rightarrow> Inl e
                     | Inr (bCB2, out) \<Rightarrow>
                         (case markUnused bCB2 i j 0 of
                            Inl e \<Rightarrow> Inl e
                          | Inr bCB3 \<Rightarrow> Inr (bCB3, out)))))"

lemma playCell_sameStatic:
  assumes "playCell bCB i j = Inr (b', out)"
  shows "sameStatic bCB b'"
proof -
  from assms obtain b1 root b2 where mu: "markUsed bCB i j 0 = Inr b1"
    and fs: "findSolution b1 i j
        (child root ! nat (getCharIndex (board b1 ! nat (getBoardIndex b1 i j)))) 1 = Inr (b2, out)"
    and mun: "markUnused b2 i j 0 = Inr b'"
    by (auto simp: playCell_def Let_def split: sum.splits option.splits if_splits)
  from markUsed_sameStatic[OF mu] findSolution_sameStatic[OF fs] markUnused_sameStatic[OF mun]
  show ?thesis by (blast intro: sameStatic_trans)
qed

lemma sameStatic_boardSize: "sameStatic a b \<Longrightarrow> boardSize b = boardSize a"
  by (cases a, cases b) (simp add: sameStatic_def)

function playCols :: "BoggleCB \<Rightarrow> int \<Rightarrow> int \<Rightarrow> error + (BoggleCB \<times> found list)" where
  "playCols bCB i j =
     (if j < boardSize bCB then
        (case playCell bCB i j of
           Inl e \<Rightarrow> Inl e
         | Inr (bCB1, out1) \<Rightarrow>
             (case playCols bCB1 i (j + 1) of
                Inl e \<Rightarrow> Inl e
              | Inr (bCB2, out2) \<Rightarrow> Inr (bCB2, out1 @ out2)))
      else Inr (bCB, []))"
  by pat_completeness auto
termination
  apply (relation "measure (\<lambda>(bCB, i, j). nat (boardSize bCB - j))")
   apply simp
  apply (auto dest!: playCell_sameStatic sameStatic_boardSize)
  done

declare playCols.simps [simp del]

lemma playCols_sameStatic:
  "playCols bCB i j = Inr (b', out) \<Longrightarrow> sameStatic bCB b'"
proof (induction bCB i j arbitrary: b' out rule: playCols.induct)
  case (1 bCB i j)
  show ?case
  proof (cases "j < boardSize bCB")
    case False
    with "1.prems" show ?thesis by (simp add: playCols.simps[of bCB] sameStatic_refl)
  next
    case True
    with "1.prems" obtain b1 out1 out2 where c: "playCell bCB i j = Inr (b1, out1)"
      and r: "playCols b1 i (j + 1) = Inr (b', out2)"
      by (auto simp: playCols.simps[of bCB] split: sum.splits)
    from "1.IH"[OF True c refl r] playCell_sameStatic[OF c]
    show ?thesis by (blast intro: sameStatic_trans)
  qed
qed

function playRows :: "BoggleCB \<Rightarrow> int \<Rightarrow> error + (BoggleCB \<times> found list)" where
  "playRows bCB i =
     (if i < boardSize bCB then
        (case playCols bCB i 0 of
           Inl e \<Rightarrow> Inl e
         | Inr (bCB1, out1) \<Rightarrow>
             (case playRows bCB1 (i + 1) of
                Inl e \<Rightarrow> Inl e
              | Inr (bCB2, out2) \<Rightarrow> Inr (bCB2, out1 @ out2)))
      else Inr (bCB, []))"
  by pat_completeness auto
termination
  apply (relation "measure (\<lambda>(bCB, i). nat (boardSize bCB - i))")
   apply simp
  apply (auto dest!: playCols_sameStatic sameStatic_boardSize)
  done

declare playRows.simps [simp del]

definition playBoggle :: "BoggleCB \<Rightarrow> error + (BoggleCB \<times> found list)" where
  "playBoggle bCB =
     (if \<not> (int MAX_WORD_LENGTH \<ge> boardSize bCB * boardSize bCB) then Inl AssertFail
      else playRows (bCB\<lparr>search := replicate MAX_WORD_LENGTH NUL\<rparr>) 0)"

subsection \<open>The driver with the call stack made visible\<close>

text \<open>
  The driver with the path argument: the search from the cell \<open>(i, j)\<close> starts
  with the path \<open>[(i, j)]\<close>.
\<close>

definition playCellT :: "BoggleCB \<Rightarrow> int \<Rightarrow> int \<Rightarrow> error + (BoggleCB \<times> visit list)" where
  "playCellT bCB i j =
     (case markUsed bCB i j 0 of
        Inl e \<Rightarrow> Inl e
      | Inr bCB1 \<Rightarrow>
          (let charIndex = getCharIndex (board bCB1 ! nat (getBoardIndex bCB1 i j))
           in case dict bCB1 of
                None \<Rightarrow> Inl NullDeref
              | Some root \<Rightarrow>
                  if \<not> inRange charIndex (child root) then Inl OutOfBounds
                  else
                    (case findSolutionT bCB1 [(i, j)] i j (child root ! nat charIndex) 1 of
                       Inl e \<Rightarrow> Inl e
                     | Inr (bCB2, vs) \<Rightarrow>
                         (case markUnused bCB2 i j 0 of
                            Inl e \<Rightarrow> Inl e
                          | Inr bCB3 \<Rightarrow> Inr (bCB3, vs)))))"

lemma playCellT_erase: "playCell bCB i j = erase (playCellT bCB i j)"
  by (simp add: playCell_def playCellT_def Let_def findSolutionT_erase(1)[of _ _ _ _ _ "[(i, j)]"]
      split: sum.split option.split)

lemma playCellT_sameStatic:
  assumes "playCellT bCB i j = Inr (b', vs)"
  shows "sameStatic bCB b'"
proof -
  from assms have "playCell bCB i j = Inr (b', printed vs)" by (simp add: playCellT_erase)
  then show ?thesis by (rule playCell_sameStatic)
qed

function playColsT :: "BoggleCB \<Rightarrow> int \<Rightarrow> int \<Rightarrow> error + (BoggleCB \<times> visit list)" where
  "playColsT bCB i j =
     (if j < boardSize bCB then
        (case playCellT bCB i j of
           Inl e \<Rightarrow> Inl e
         | Inr (bCB1, vs1) \<Rightarrow>
             (case playColsT bCB1 i (j + 1) of
                Inl e \<Rightarrow> Inl e
              | Inr (bCB2, vs2) \<Rightarrow> Inr (bCB2, vs1 @ vs2)))
      else Inr (bCB, []))"
  by pat_completeness auto
termination
  apply (relation "measure (\<lambda>(bCB, i, j). nat (boardSize bCB - j))")
   apply simp
  apply (auto dest!: playCellT_sameStatic sameStatic_boardSize)
  done

declare playColsT.simps [simp del]

lemma playColsT_erase: "playCols bCB i j = erase (playColsT bCB i j)"
proof (induction bCB i j rule: playColsT.induct)
  case (1 bCB i j)
  show ?case
  proof (cases "j < boardSize bCB")
    case False
    then show ?thesis by (simp add: playCols.simps[of bCB] playColsT.simps[of bCB])
  next
    case True
    show ?thesis
    proof (cases "playCellT bCB i j")
      case (Inl e)
      with True show ?thesis
        by (simp add: playCols.simps[of bCB] playColsT.simps[of bCB] playCellT_erase)
    next
      case (Inr p)
      obtain b1 vs1 where p: "p = (b1, vs1)" by (cases p)
      from "1.IH"[OF True Inr p[symmetric]] True Inr p show ?thesis
        by (simp add: playCols.simps[of bCB] playColsT.simps[of bCB] playCellT_erase
            split: sum.split)
    qed
  qed
qed

lemma playColsT_sameStatic:
  assumes "playColsT bCB i j = Inr (b', vs)"
  shows "sameStatic bCB b'"
proof -
  from assms have "playCols bCB i j = Inr (b', printed vs)" by (simp add: playColsT_erase)
  then show ?thesis by (rule playCols_sameStatic)
qed

function playRowsT :: "BoggleCB \<Rightarrow> int \<Rightarrow> error + (BoggleCB \<times> visit list)" where
  "playRowsT bCB i =
     (if i < boardSize bCB then
        (case playColsT bCB i 0 of
           Inl e \<Rightarrow> Inl e
         | Inr (bCB1, vs1) \<Rightarrow>
             (case playRowsT bCB1 (i + 1) of
                Inl e \<Rightarrow> Inl e
              | Inr (bCB2, vs2) \<Rightarrow> Inr (bCB2, vs1 @ vs2)))
      else Inr (bCB, []))"
  by pat_completeness auto
termination
  apply (relation "measure (\<lambda>(bCB, i). nat (boardSize bCB - i))")
   apply simp
  apply (auto dest!: playColsT_sameStatic sameStatic_boardSize)
  done

declare playRowsT.simps [simp del]

lemma playRowsT_erase: "playRows bCB i = erase (playRowsT bCB i)"
proof (induction bCB i rule: playRowsT.induct)
  case (1 bCB i)
  show ?case
  proof (cases "i < boardSize bCB")
    case False
    then show ?thesis by (simp add: playRows.simps[of bCB] playRowsT.simps[of bCB])
  next
    case True
    show ?thesis
    proof (cases "playColsT bCB i 0")
      case (Inl e)
      with True show ?thesis
        by (simp add: playRows.simps[of bCB] playRowsT.simps[of bCB] playColsT_erase)
    next
      case (Inr p)
      obtain b1 vs1 where p: "p = (b1, vs1)" by (cases p)
      from "1.IH"[OF True Inr p[symmetric]] True Inr p show ?thesis
        by (simp add: playRows.simps[of bCB] playRowsT.simps[of bCB] playColsT_erase
            split: sum.split)
    qed
  qed
qed

definition playBoggleT :: "BoggleCB \<Rightarrow> error + (BoggleCB \<times> visit list)" where
  "playBoggleT bCB =
     (if \<not> (int MAX_WORD_LENGTH \<ge> boardSize bCB * boardSize bCB) then Inl AssertFail
      else playRowsT (bCB\<lparr>search := replicate MAX_WORD_LENGTH NUL\<rparr>) 0)"

lemma playBoggleT_erase: "playBoggle bCB = erase (playBoggleT bCB)"
  by (simp add: playBoggle_def playBoggleT_def playRowsT_erase)

section \<open>Notions used to state the properties\<close>

subsection \<open>The dictionary\<close>

text \<open>The number of nodes of a tree, and of the trees of an array of children.\<close>

fun countNode :: "Trie option \<Rightarrow> nat"
  and countNodes :: "Trie option list \<Rightarrow> nat" where
  "countNode None = 0"
| "countNode (Some (Trie c f ps)) = 1 + countNodes ps"
| "countNodes [] = 0"
| "countNodes (p # ps) = countNode p + countNodes ps"

text \<open>
  A sequence of successful insertions: every \<^verbatim>\<open>trieAddWord\<close> returns \<open>bSuccess = true\<close>.
\<close>

fun insertAll :: "BoggleCB \<Rightarrow> string list \<Rightarrow> nat \<Rightarrow> (BoggleCB \<times> nat) option" where
  "insertAll bCB [] heap = Some (bCB, heap)"
| "insertAll bCB (w # ws) heap =
     (case trieAddWord bCB w heap of
        Inr (True, wordAdded, bCB', heap') \<Rightarrow> insertAll bCB' ws heap'
      | _ \<Rightarrow> None)"

text \<open>The allocation counter agrees with the tree, and nothing has been freed.\<close>

definition counted :: "BoggleCB \<Rightarrow> bool" where
  "counted bCB = (dict bCB \<noteq> None \<and> trieAllocCalls bCB = countNode (dict bCB) \<and> trieFreeCalls bCB = 0)"

text \<open>
  Whether the dictionary holds a word: the walk down the tree by the indices
  of the letters ends on a node flagged \<^verbatim>\<open>FLAGS_ISWORD\<close>.
\<close>

fun isWord :: "Trie \<Rightarrow> string \<Rightarrow> bool" where
  "isWord t [] = (flags t AND FLAGS_ISWORD \<noteq> 0)"
| "isWord t (c # cs) =
     (if \<not> inRange (getCharIndex c) (child t) then False
      else (case child t ! nat (getCharIndex c) of
              None \<Rightarrow> False
            | Some n \<Rightarrow> isWord n cs))"

text \<open>
  The same from the dictionary pointer of the control block.
\<close>

definition dictHas :: "Trie option \<Rightarrow> string \<Rightarrow> bool" where
  "dictHas d w = (case d of None \<Rightarrow> False | Some root \<Rightarrow> isWord root w)"

text \<open>
  The node on which the walk down the tree by the indices of the letters of
  a word ends, if the walk does not leave the tree.
\<close>

fun walkTo :: "Trie \<Rightarrow> string \<Rightarrow> Trie option" where
  "walkTo t [] = Some t"
| "walkTo t (c # cs) =
     (if \<not> inRange (getCharIndex c) (child t) then None
      else (case child t ! nat (getCharIndex c) of
              None \<Rightarrow> None
            | Some n \<Rightarrow> walkTo n cs))"

text \<open>
  A letter is present when its index is inside the histogram and its count
  is not zero: the test that lets \<^verbatim>\<open>trieAddWord\<close> go on.
\<close>

definition present :: "int list \<Rightarrow> char \<Rightarrow> bool" where
  "present hist c =
     (inRange (getCharIndex c) hist \<and> hist ! nat (getCharIndex c) \<noteq> 0)"

text \<open>
  Every node of a dictionary has \<open>ALPHABET_SIZE\<close> children, as \<^verbatim>\<open>trieAllocNode\<close>
  makes them.
\<close>

fun wfNode :: "Trie option \<Rightarrow> bool"
  and wfNodes :: "Trie option list \<Rightarrow> bool" where
  "wfNode None = True"
| "wfNode (Some (Trie c f ps)) = (length ps = ALPHABET_SIZE \<and> wfNodes ps)"
| "wfNodes [] = True"
| "wfNodes (p # ps) = (wfNode p \<and> wfNodes ps)"

subsection \<open>The board\<close>

text \<open>
  The letters \<^verbatim>\<open>a\<close> to \<^verbatim>\<open>z\<close>; \<^verbatim>\<open>main\<close> stores the cells of the board through
  \<^verbatim>\<open>tolower\<close>.
\<close>

definition lowercase :: "char \<Rightarrow> bool" where
  "lowercase c = (let n = (of_char c :: nat) in 97 \<le> n \<and> n \<le> 122)"

text \<open>
  A control block during the search: a square board of lowercase letters
  that fits the buffer, and a mask of the same size.
\<close>

definition wfCB :: "BoggleCB \<Rightarrow> bool" where
  "wfCB bCB =
     (0 \<le> boardSize bCB
      \<and> maxBoardSize bCB = boardSize bCB * boardSize bCB
      \<and> length (board bCB) = nat (boardSize bCB * boardSize bCB)
      \<and> length (used bCB) = nat (boardSize bCB * boardSize bCB)
      \<and> length (search bCB) = MAX_WORD_LENGTH
      \<and> boardSize bCB * boardSize bCB \<le> int MAX_WORD_LENGTH
      \<and> list_all lowercase (board bCB))"

text \<open>
  The control block as \<^verbatim>\<open>main\<close> hands it to \<^verbatim>\<open>playBoggle\<close>: a square board of
  lowercase letters, a mask of the same size with every cell unused, and a
  dictionary whose nodes have \<open>ALPHABET_SIZE\<close> children each.
\<close>

definition ready :: "BoggleCB \<Rightarrow> bool" where
  "ready bCB =
     (0 \<le> boardSize bCB
      \<and> maxBoardSize bCB = boardSize bCB * boardSize bCB
      \<and> length (board bCB) = nat (boardSize bCB * boardSize bCB)
      \<and> used bCB = replicate (nat (boardSize bCB * boardSize bCB)) False
      \<and> list_all lowercase (board bCB)
      \<and> wfNode (dict bCB))"

text \<open>
  A cell is a pair \<open>(row, col)\<close>. \<open>onBoard\<close> says that it lies on the grid,
  \<open>cellIndex\<close> is its index in the arrays, \<open>letterAt\<close> its letter, and \<open>cells\<close>
  lists the cells of the grid.
\<close>

definition onBoard :: "BoggleCB \<Rightarrow> cell \<Rightarrow> bool" where
  "onBoard bCB p =
     (0 \<le> fst p \<and> fst p < boardSize bCB \<and> 0 \<le> snd p \<and> snd p < boardSize bCB)"

definition cellIndex :: "BoggleCB \<Rightarrow> cell \<Rightarrow> nat" where
  "cellIndex bCB p = nat (getBoardIndex bCB (fst p) (snd p))"

definition letterAt :: "BoggleCB \<Rightarrow> cell \<Rightarrow> char" where
  "letterAt bCB p = board bCB ! cellIndex bCB p"

definition cells :: "BoggleCB \<Rightarrow> cell list" where
  "cells bCB =
     concat (map (\<lambda>r. map (\<lambda>c. (r, c)) [0..boardSize bCB - 1]) [0..boardSize bCB - 1])"

text \<open>
  The control block after the \<^verbatim>\<open>memset\<close> of \<^verbatim>\<open>playBoggle\<close>: the state in which
  the search of every cell starts. \<open>startNode\<close> is the node that \<^verbatim>\<open>playBoggle\<close>
  passes to \<^verbatim>\<open>findSolution\<close> for a cell, \<^verbatim>\<open>bCB->dict->child[charIndex]\<close>; it is
  \<open>None\<close> also when the dictionary itself is \<^verbatim>\<open>NULL\<close>.
\<close>

definition cleared :: "BoggleCB \<Rightarrow> BoggleCB" where
  "cleared bCB = bCB\<lparr>search := replicate MAX_WORD_LENGTH NUL\<rparr>"

definition startNode :: "BoggleCB \<Rightarrow> cell \<Rightarrow> Trie option" where
  "startNode bCB p =
     (case dict bCB of
        None \<Rightarrow> None
      | Some root \<Rightarrow> child root ! nat (getCharIndex (letterAt bCB p)))"

text \<open>
  Two cells are adjacent when their rows and their columns differ by at most
  1 and they are not the same cell.
\<close>

definition adjacent :: "cell \<Rightarrow> cell \<Rightarrow> bool" where
  "adjacent p q = (\<bar>fst p - fst q\<bar> \<le> 1 \<and> \<bar>snd p - snd q\<bar> \<le> 1 \<and> p \<noteq> q)"

subsection \<open>The state of the search\<close>

text \<open>
  The buffer that spells a path: the letters of its cells, then \<open>NUL\<close> up to
  \<open>MAX_WORD_LENGTH\<close>.
\<close>

definition bufferOf :: "BoggleCB \<Rightarrow> cell list \<Rightarrow> char list" where
  "bufferOf bCB path =
     map (letterAt bCB) path @ replicate (MAX_WORD_LENGTH - length path) NUL"

text \<open>
  The mask \<open>u\<close> marks exactly the cells of the path.
\<close>

definition maskOf :: "BoggleCB \<Rightarrow> bool list \<Rightarrow> cell list \<Rightarrow> bool" where
  "maskOf bCB u path = (\<forall>p. onBoard bCB p \<longrightarrow> (u ! cellIndex bCB p \<longleftrightarrow> p \<in> set path))"

text \<open>
  The state of the search on a path: its cells lie on the board, are
  distinct and successively adjacent, the mask marks them and no other cell,
  and the buffer spells them.
\<close>

definition pathInv :: "BoggleCB \<Rightarrow> cell list \<Rightarrow> bool" where
  "pathInv bCB path =
     (list_all (onBoard bCB) path \<and> distinct path \<and> successively adjacent path
      \<and> maskOf bCB (used bCB) path \<and> search bCB = bufferOf bCB path)"

text \<open>
  What a recorded call of \<^verbatim>\<open>findSolution\<close> must look like: it found the state
  of the search on its path, its arguments are the last cell and the length
  of the path, it printed the word of the path with its arguments \<open>row\<close> and
  \<open>col\<close> when its node is flagged \<^verbatim>\<open>FLAGS_ISWORD\<close> and nothing otherwise, and
  it left the mask and the buffer as it found them.
\<close>

definition goodVisit :: "BoggleCB \<Rightarrow> visit \<Rightarrow> bool" where
  "goodVisit bCB v =
     (pathInv (bCB\<lparr>used := v_used v, search := v_search v\<rparr>) (v_path v)
      \<and> v_path v \<noteq> []
      \<and> last (v_path v) = (v_row v, v_col v)
      \<and> v_index v = int (length (v_path v))
      \<and> v_printed v =
            (if flags (v_node v) AND FLAGS_ISWORD \<noteq> 0
             then [(map (letterAt bCB) (v_path v), v_row v, v_col v)] else [])
      \<and> v_used_out v = v_used v
      \<and> v_search_out v = v_search v)"

text \<open>
  A call nested in a call on \<open>path\<close>: its path extends \<open>path\<close> and has at least
  \<open>d\<close> cells.
\<close>

definition deeper :: "BoggleCB \<Rightarrow> cell list \<Rightarrow> nat \<Rightarrow> visit \<Rightarrow> bool" where
  "deeper bCB path d v =
     (goodVisit bCB v \<and> take (length path) (v_path v) = path \<and> d \<le> length (v_path v))"

text \<open>
  A part of the search returns without error, with the control block it was
  given, and every call it has made is as above.
\<close>

definition searchOK :: "BoggleCB \<Rightarrow> cell list \<Rightarrow> nat \<Rightarrow> error + (BoggleCB \<times> visit list) \<Rightarrow> bool" where
  "searchOK bCB path d r = (\<exists>vs. r = Inr (bCB, vs) \<and> (\<forall>v\<in>set vs. deeper bCB path d v))"

text \<open>
  The driver either stops on a \<^verbatim>\<open>NULL\<close> dictionary or on the assertion of
  \<^verbatim>\<open>findSolution\<close>, or returns with every call as above.
\<close>

definition driveOK :: "BoggleCB \<Rightarrow> error + (BoggleCB \<times> visit list) \<Rightarrow> bool" where
  "driveOK bCB r =
     (r = Inl NullDeref \<or> r = Inl AssertFail
      \<or> (\<exists>vs. r = Inr (bCB, vs) \<and> (\<forall>v\<in>set vs. goodVisit bCB v)))"

text \<open>
  What a call printed, with the first cell of its path.
\<close>

definition printedWithOrigin :: "visit \<Rightarrow> found list \<times> cell" where
  "printedWithOrigin v = (v_printed v, hd (v_path v))"

section \<open>Example runs\<close>

text \<open>
  The 2 x 2 board \<^verbatim>\<open>ab / ba\<close>, with a heap of 100 nodes: \<open>exStart\<close> before any
  insertion, \<open>exOnce\<close> after the insertion of \<^verbatim>\<open>ab\<close>, \<open>exBuilt\<close> after the
  insertions of \<^verbatim>\<open>ab\<close> and \<^verbatim>\<open>ba\<close>, \<open>exAbz\<close> and \<open>exLong\<close> after the insertion
  of \<^verbatim>\<open>abz\<close> and of \<^verbatim>\<open>abbaz\<close> into \<open>exStart\<close>.
\<close>

definition exStart :: BoggleCB where
  "exStart = (case mainSetup 2 ''abba'' 100 of Inr (bCB, heap) \<Rightarrow> bCB | Inl e \<Rightarrow> zeroCB)"

definition exOnce :: BoggleCB where
  "exOnce = (case trieAddWord exStart ''ab'' 99 of
               Inr (ok, added, bCB, heap) \<Rightarrow> bCB | Inl e \<Rightarrow> exStart)"

definition exBuilt :: BoggleCB where
  "exBuilt = (case insertAll exStart [''ab'', ''ba''] 99 of
                Some (bCB, heap) \<Rightarrow> bCB | None \<Rightarrow> exStart)"

definition exAbz :: BoggleCB where
  "exAbz = (case trieAddWord exStart ''abz'' 99 of
              Inr (ok, added, bCB, heap) \<Rightarrow> bCB | Inl e \<Rightarrow> exStart)"

definition exLong :: BoggleCB where
  "exLong = (case trieAddWord exStart ''abbaz'' 99 of
               Inr (ok, added, bCB, heap) \<Rightarrow> bCB | Inl e \<Rightarrow> exStart)"

text \<open>
  The run of \<^verbatim>\<open>playBoggle\<close> on \<open>exBuilt\<close>: \<open>exCleared\<close> is the control block
  after the \<^verbatim>\<open>memset\<close> of the buffer, \<open>exVisits\<close> the calls of \<^verbatim>\<open>findSolution\<close>,
  \<open>exMarked\<close> the control block in the first of them, on the cell \<open>(0, 0)\<close>,
  and \<open>exNode\<close> the node of the letter \<^verbatim>\<open>a\<close> under the root.
\<close>

definition exCleared :: BoggleCB where
  "exCleared = exBuilt\<lparr>search := replicate MAX_WORD_LENGTH NUL\<rparr>"

definition exVisits :: "visit list" where
  "exVisits = (case playBoggleT exBuilt of Inr (bCB, vs) \<Rightarrow> vs | Inl e \<Rightarrow> [])"

definition exMarked :: BoggleCB where
  "exMarked = (case markUsed exCleared 0 0 0 of Inr bCB \<Rightarrow> bCB | Inl e \<Rightarrow> exCleared)"

definition exNode :: Trie where
  "exNode = (case dict exBuilt of
               Some root \<Rightarrow> (case child root ! 0 of Some t \<Rightarrow> t | None \<Rightarrow> root)
             | None \<Rightarrow> Trie NUL 0 [])"

text \<open>
  The 2 x 2 board \<^verbatim>\<open>ab / cd\<close> with the dictionary \<^verbatim>\<open>ab\<close>, \<^verbatim>\<open>ac\<close>, \<^verbatim>\<open>abc\<close>,
  \<^verbatim>\<open>abd\<close>: \<open>exSpec\<close>, and \<open>exSpecCleared\<close> after the \<^verbatim>\<open>memset\<close> of the buffer.
\<close>

definition exSpecStart :: BoggleCB where
  "exSpecStart = (case mainSetup 2 ''abcd'' 100 of Inr (bCB, heap) \<Rightarrow> bCB | Inl e \<Rightarrow> zeroCB)"

definition exSpec :: BoggleCB where
  "exSpec = (case insertAll exSpecStart [''ab'', ''ac'', ''abc'', ''abd''] 99 of
               Some (bCB, heap) \<Rightarrow> bCB | None \<Rightarrow> exSpecStart)"

definition exSpecCleared :: BoggleCB where
  "exSpecCleared = exSpec\<lparr>search := replicate MAX_WORD_LENGTH NUL\<rparr>"

text \<open>
  The calls of \<^verbatim>\<open>findSolution\<close> in the search from the cell \<open>(0, 0)\<close>, on the
  board \<^verbatim>\<open>ab / cd\<close> and on the board \<^verbatim>\<open>ab / ba\<close>.
\<close>

definition exSpecVisits :: "visit list" where
  "exSpecVisits = (case playCellT (cleared exSpec) 0 0 of Inr (bCB, vs) \<Rightarrow> vs | Inl e \<Rightarrow> [])"

definition exCellVisits :: "visit list" where
  "exCellVisits = (case playCellT (cleared exBuilt) 0 0 of Inr (bCB, vs) \<Rightarrow> vs | Inl e \<Rightarrow> [])"

text \<open>
  The board \<^verbatim>\<open>ab / ba\<close> when \<^verbatim>\<open>malloc\<close> fails in \<^verbatim>\<open>initBoggle\<close>.
\<close>

definition exNoHeap :: BoggleCB where
  "exNoHeap = (case mainSetup 2 ''abba'' 0 of Inr (bCB, heap) \<Rightarrow> bCB | Inl e \<Rightarrow> zeroCB)"

section \<open>Lemmas\<close>

subsection \<open>Counting nodes\<close>

lemma trieFree_count:
  "trieFree bCB p = (bCB\<lparr>trieFreeCalls := trieFreeCalls bCB + countNode p\<rparr>, None)"
  "trieFreeChildren bCB ps =
     (bCB\<lparr>trieFreeCalls := trieFreeCalls bCB + countNodes ps\<rparr>, replicate (length ps) None)"
  by (induction bCB p and bCB ps rule: trieFree_trieFreeChildren.induct) simp_all

lemma countNodes_replicate_None [simp]: "countNodes (replicate n None) = 0"
  by (induction n) simp_all

lemma countNode_Some: "countNode (Some t) = 1 + countNodes (child t)"
  by (cases t) simp

lemma countNodes_update:
  "k < length ps \<Longrightarrow> countNodes (ps[k := q]) + countNode (ps ! k) = countNodes ps + countNode q"
proof (induction ps arbitrary: k)
  case Nil
  then show ?case by simp
next
  case (Cons p ps)
  then show ?case by (cases k) auto
qed

lemma trieDescend_count:
  "trieDescend hist cur w heap = Inr (st, cur', a, heap') \<Longrightarrow>
   countNode (Some cur') = countNode (Some cur) + a"
proof (induction hist cur w heap arbitrary: st cur' a heap' rule: trieDescend.induct)
  case (1 hist cur heap)
  then show ?case by (auto simp: countNode_Some)
next
  case (2 hist cur c cs heap)
  define k where "k = nat (getCharIndex c)"
  from "2.prems" have rng1: "inRange (getCharIndex c) hist"
    by (auto simp: Let_def split: if_splits)
  show ?case
  proof (cases "hist ! k = 0")
    case True
    with "2.prems" rng1 show ?thesis by (simp add: Let_def k_def)
  next
    case nz: False
    with "2.prems" rng1 have rng2: "inRange (getCharIndex c) (child cur)"
      by (auto simp: Let_def k_def split: if_splits)
    note rng = rng1 rng2
    from rng2 have klen: "k < length (child cur)" by (auto simp: inRange_def k_def)
    show ?thesis
    proof (cases "child cur ! k")
      case (Some n)
      with "2.prems" rng nz obtain n' a' where
        d: "trieDescend hist (Trie c (flags n) (child n)) cs heap = Inr (st, n', a', heap')"
        and r: "cur' = Trie (ch cur) (flags cur) ((child cur)[k := Some n'])" "a = a'"
        by (auto simp: Let_def k_def split: sum.splits)
      have "countNode (Some n') = countNode (Some (Trie c (flags n) (child n))) + a'"
        using "2.IH"[of "getCharIndex c" "Some n" "(0, heap)" n 0 heap st n' a' heap'] d rng nz Some
        by (simp add: k_def)
      then have "countNode (Some n') = countNode (Some n) + a'" by (simp add: countNode_Some)
      with countNodes_update[OF klen, of "Some n'"] Some r show ?thesis
        by (simp add: countNode_Some)
    next
      case None
      show ?thesis
      proof (cases "heap = 0")
        case True
        with "2.prems" rng nz None show ?thesis
          by (simp add: Let_def k_def trieAllocNode_def)
      next
        case False
        define n where "n = Trie NUL 0 (replicate ALPHABET_SIZE None)"
        from False "2.prems" rng nz None obtain n' a' where
          d: "trieDescend hist (Trie c (flags n) (child n)) cs (heap - 1) = Inr (st, n', a', heap')"
          and r: "cur' = Trie (ch cur) (flags cur) ((child cur)[k := Some n'])" "a = 1 + a'"
          by (auto simp: Let_def k_def trieAllocNode_def n_def split: sum.splits)
        have "countNode (Some n') = countNode (Some (Trie c (flags n) (child n))) + a'"
          using "2.IH"[of "getCharIndex c" "Some n" "(1, heap - 1)" n 1 "heap - 1" st n' a' heap']
            d rng nz None False
          by (simp add: k_def trieAllocNode_def n_def)
        then have "countNode (Some n') = 1 + a'" by (simp add: n_def)
        with countNodes_update[OF klen, of "Some n'"] None r show ?thesis
          by (simp add: countNode_Some)
      qed
    qed
  qed
qed

lemma trieAddWord_counted:
  assumes "trieAddWord bCB w heap = Inr (ok, added, bCB', heap')" "counted bCB"
  shows "counted bCB'"
proof -
  from assms(2) obtain root where root: "dict bCB = Some root" by (auto simp: counted_def)
  from assms(1) root obtain st root' a where
    d: "trieDescend (histogram bCB) root w heap = Inr (st, root', a, heap')"
    and b': "bCB' = bCB\<lparr>dict := Some root', trieAllocCalls := trieAllocCalls bCB + a\<rparr>"
    by (auto simp: trieAddWord_def split: list.splits sum.splits)
  from trieDescend_count[OF d] assms(2) root show ?thesis
    by (simp add: counted_def b')
qed

lemma insertAll_counted:
  "insertAll bCB ws heap = Some (bCB', heap') \<Longrightarrow> counted bCB \<Longrightarrow> counted bCB'"
proof (induction ws arbitrary: bCB heap)
  case Nil
  then show ?case by simp
next
  case (Cons w ws)
  from Cons.prems(1) obtain added b1 h1 where
    a: "trieAddWord bCB w heap = Inr (True, added, b1, h1)" and r: "insertAll b1 ws h1 = Some (bCB', heap')"
    by (auto split: sum.splits bool.splits)
  from Cons.IH[OF r trieAddWord_counted[OF a Cons.prems(2)]] show ?case .
qed

lemma teardown_counted:
  "counted bCB \<Longrightarrow> trieFreeCalls (teardown bCB) = trieAllocCalls (teardown bCB) \<and> dict (teardown bCB) = None"
  by (simp add: teardown_def trieFree_count counted_def)

subsection \<open>Inserting a word again\<close>

lemma trieDescend_ch:
  "trieDescend hist cur w heap = Inr (st, cur', a, heap') \<Longrightarrow> ch cur' = ch cur"
  by (cases w) (auto simp: Let_def split: if_splits option.splits sum.splits prod.splits)

lemma flags_mark_twice: "(f OR FLAGS_ISWORD) OR FLAGS_ISWORD = f OR FLAGS_ISWORD"
  by (simp add: or.assoc)

lemma trieDescend_again:
  "trieDescend hist cur w heap = Inr (Completed, cur', a, heap') \<Longrightarrow>
   trieDescend hist cur' w heap' = Inr (Completed, cur', 0, heap')"
proof (induction hist cur w heap arbitrary: cur' a heap' rule: trieDescend.induct)
  case (1 hist cur heap)
  then show ?case by (auto simp: flags_mark_twice)
next
  case (2 hist cur c cs heap)
  define k where "k = nat (getCharIndex c)"
  from "2.prems" have rng1: "inRange (getCharIndex c) hist" and nz: "hist ! k \<noteq> 0"
    by (auto simp: Let_def k_def split: if_splits)
  with "2.prems" have rng2: "inRange (getCharIndex c) (child cur)"
    by (auto simp: Let_def k_def split: if_splits)
  then have klen: "k < length (child cur)" by (auto simp: inRange_def k_def)
  from "2.prems" rng1 rng2 nz obtain n and a0 :: nat and h0 n' a' where
    look: "(case child cur ! k of
                 Some n \<Rightarrow> (Some n, 0, heap)
               | None \<Rightarrow> (case trieAllocNode heap of (n, heap') \<Rightarrow> (n, 1, heap'))) = (Some n, a0, h0)"
    and d: "trieDescend hist (Trie c (flags n) (child n)) cs h0 = Inr (Completed, n', a', heap')"
    and r: "cur' = Trie (ch cur) (flags cur) ((child cur)[k := Some n'])"
    by (auto simp: Let_def k_def split: sum.splits prod.splits option.splits)
  have ih: "trieDescend hist n' cs heap' = Inr (Completed, n', 0, heap')"
    using "2.IH"[of "getCharIndex c" "Some n" "(a0, h0)" n a0 h0 n' a' heap'] rng1 rng2 nz look d
    by (simp add: k_def)
  from trieDescend_ch[OF d] have "Trie c (flags n') (child n') = n'"
    by (cases n') simp
  with ih have ih': "trieDescend hist (Trie c (flags n') (child n')) cs heap' = Inr (Completed, n', 0, heap')"
    by simp
  have rng2': "inRange (getCharIndex c) (child cur')" using rng2 r by (simp add: inRange_def)
  have ck: "child cur' ! k = Some n'" using klen r by simp
  show ?case
    using rng1 nz rng2' ck ih' r klen
    by (simp add: Let_def k_def[symmetric])
qed

lemma getBoardIndex_bounds:
  assumes "onBoard bCB p"
  shows "0 \<le> getBoardIndex bCB (fst p) (snd p)"
    and "getBoardIndex bCB (fst p) (snd p) < boardSize bCB * boardSize bCB"
proof -
  let ?n = "boardSize bCB"
  from assms have r: "0 \<le> fst p" "fst p \<le> ?n - 1" and c: "0 \<le> snd p" "snd p < ?n" and n: "0 < ?n"
    by (auto simp: onBoard_def)
  have "0 \<le> ?n * fst p" using r n by simp
  with c show "0 \<le> getBoardIndex bCB (fst p) (snd p)" by (simp add: getBoardIndex_def)
  have "?n * fst p \<le> ?n * (?n - 1)" using r n by (intro mult_left_mono) simp_all
  then have "?n * fst p + snd p < ?n * (?n - 1) + ?n" using c by linarith
  then show "getBoardIndex bCB (fst p) (snd p) < ?n * ?n"
    by (simp add: getBoardIndex_def algebra_simps)
qed

lemma cellIndex_less:
  assumes "onBoard bCB p"
  shows "cellIndex bCB p < nat (boardSize bCB * boardSize bCB)"
  using getBoardIndex_bounds[OF assms] by (simp add: cellIndex_def)

lemma cellIndex_inj:
  assumes "onBoard bCB p" "onBoard bCB q" "cellIndex bCB p = cellIndex bCB q"
  shows "p = q"
proof -
  let ?n = "boardSize bCB"
  from assms(1,2) have n: "0 < ?n" and cp: "0 \<le> snd p" "snd p < ?n" and cq: "0 \<le> snd q" "snd q < ?n"
    by (auto simp: onBoard_def)
  from assms(3) getBoardIndex_bounds(1)[OF assms(1)] getBoardIndex_bounds(1)[OF assms(2)]
  have e: "?n * fst p + snd p = ?n * fst q + snd q"
    by (simp add: cellIndex_def getBoardIndex_def)
  have "(?n * fst p + snd p) div ?n = fst p" using cp n by (simp add: div_pos_pos_trivial)
  moreover have "(?n * fst q + snd q) div ?n = fst q" using cq n by (simp add: div_pos_pos_trivial)
  ultimately have f: "fst p = fst q" using e by simp
  with e have "snd p = snd q" by simp
  with f show ?thesis by (simp add: prod_eq_iff)
qed

lemma path_length_le:
  assumes "list_all (onBoard bCB) path" "distinct path"
  shows "length path \<le> nat (boardSize bCB * boardSize bCB)"
proof -
  have inj: "inj_on (cellIndex bCB) (set path)"
  proof (rule inj_onI)
    fix p q assume "p \<in> set path" "q \<in> set path" "cellIndex bCB p = cellIndex bCB q"
    with assms(1) show "p = q" by (intro cellIndex_inj[of bCB]) (simp_all add: list_all_iff)
  qed
  have sub: "cellIndex bCB ` set path \<subseteq> {..< nat (boardSize bCB * boardSize bCB)}"
    using assms(1) by (auto simp: list_all_iff intro: cellIndex_less)
  have "length path = card (set path)" using assms(2) by (simp add: distinct_card)
  also have "\<dots> = card (cellIndex bCB ` set path)" using inj by (simp add: card_image)
  also have "\<dots> \<le> card {..< nat (boardSize bCB * boardSize bCB)}"
    using sub by (intro card_mono) simp_all
  finally show ?thesis by simp
qed

lemma square_le_80:
  assumes "0 \<le> (n::int)" "n * n \<le> 80"
  shows "n * n \<le> 64"
proof (cases "n \<le> 8")
  case True
  with assms(1) have "n * n \<le> 8 * 8" by (intro mult_mono) simp_all
  then show ?thesis by simp
next
  case False
  then have "9 * 9 \<le> n * n" by (intro mult_mono) simp_all
  with assms(2) show ?thesis by simp
qed

lemma lowercase_index:
  assumes "lowercase c"
  shows "0 \<le> getCharIndex c" "getCharIndex c < int ALPHABET_SIZE" "c \<noteq> NUL"
proof -
  have "(of_char c :: int) = int (of_char c)" by (simp add: of_nat_of_char)
  with assms show "0 \<le> getCharIndex c" "getCharIndex c < int ALPHABET_SIZE" "c \<noteq> NUL"
    by (auto simp: lowercase_def getCharIndex_def charValue_def tolower_def ALPHABET_SIZE_def
        NUL_def Let_def)
qed

lemma wfNodes_nth: "wfNodes ps \<Longrightarrow> k < length ps \<Longrightarrow> wfNode (ps ! k)"
proof (induction ps arbitrary: k)
  case Nil
  then show ?case by simp
next
  case (Cons p ps)
  then show ?case by (cases k) auto
qed

lemma wfNode_child:
  assumes "wfNode (Some t)"
  shows "length (child t) = ALPHABET_SIZE" and "k < ALPHABET_SIZE \<Longrightarrow> wfNode (child t ! k)"
  using assms by (cases t; simp add: wfNodes_nth)+

lemma isValid_wf:
  assumes wf: "wfCB bCB" and on: "onBoard bCB (r, c)" and t: "wfNode (Some t)"
  shows "isValid bCB (getBoardIndex bCB r c) t =
     Inr (\<not> used bCB ! cellIndex bCB (r, c)
          \<and> child t ! nat (getCharIndex (letterAt bCB (r, c))) \<noteq> None)"
proof -
  let ?m = "getBoardIndex bCB r c"
  from getBoardIndex_bounds[OF on] have m: "0 \<le> ?m" "?m < boardSize bCB * boardSize bCB"
    by simp_all
  with wf have r1: "?m \<le> maxBoardSize bCB" "inRange ?m (used bCB)" "inRange ?m (board bCB)"
    by (auto simp: wfCB_def inRange_def)
  from r1(3) have "board bCB ! nat ?m \<in> set (board bCB)"
    by (auto simp: inRange_def)
  with wf have "lowercase (board bCB ! nat ?m)" by (auto simp: wfCB_def list_all_iff)
  from lowercase_index[OF this] wfNode_child(1)[OF t]
  have r2: "inRange (getCharIndex (board bCB ! nat ?m)) (child t)"
    by (simp add: inRange_def)
  show ?thesis using m(1) r1 r2
    by (simp add: isValid_def cellIndex_def letterAt_def)
qed

lemma bufferOf_snoc:
  assumes "length path < MAX_WORD_LENGTH"
  shows "(bufferOf bCB path)[length path := letterAt bCB p] = bufferOf bCB (path @ [p])"
proof -
  from assms obtain k where k: "MAX_WORD_LENGTH - length path = Suc k"
    by (cases "MAX_WORD_LENGTH - length path") auto
  then have k': "MAX_WORD_LENGTH - Suc (length path) = k" by simp
  show ?thesis
    by (simp add: bufferOf_def list_update_append k k')
qed

lemma bufferOf_nth_NUL:
  assumes "length path < MAX_WORD_LENGTH"
  shows "bufferOf bCB path ! length path = NUL"
  using assms by (simp add: bufferOf_def nth_append)

lemma bufferOf_length: "length path \<le> MAX_WORD_LENGTH \<Longrightarrow> length (bufferOf bCB path) = MAX_WORD_LENGTH"
  by (simp add: bufferOf_def)

lemma successively_snoc:
  "successively P (xs @ [x]) \<longleftrightarrow> successively P xs \<and> (xs = [] \<or> P (last xs) x)"
  by (auto simp: successively_append_iff)

lemma markUsed_wf:
  assumes wf: "wfCB bCB" and inv: "pathInv bCB path" and on: "onBoard bCB (r, c)"
    and free: "\<not> used bCB ! cellIndex bCB (r, c)"
    and adj: "path = [] \<or> adjacent (last path) (r, c)"
  defines "b1 \<equiv> bCB\<lparr>used := (used bCB)[cellIndex bCB (r, c) := True],
                      search := (search bCB)[length path := letterAt bCB (r, c)]\<rparr>"
  shows "markUsed bCB r c (int (length path)) = Inr b1"
    and "wfCB b1"
    and "pathInv b1 (path @ [(r, c)])"
    and "markUnused b1 r c (int (length path)) = Inr bCB"
    and "length path < nat (boardSize bCB * boardSize bCB)"
proof -
  let ?k = "cellIndex bCB (r, c)"
  let ?nn = "boardSize bCB * boardSize bCB"
  from inv have onp: "list_all (onBoard bCB) path" and dist: "distinct path"
    and succ: "successively adjacent path" and mask: "maskOf bCB (used bCB) path"
    and buf: "search bCB = bufferOf bCB path"
    by (simp_all add: pathInv_def)
  from mask on free have new: "(r, c) \<notin> set path" by (auto simp: maskOf_def)
  have "length (path @ [(r, c)]) \<le> nat ?nn"
    using onp on dist new by (intro path_length_le) simp_all
  then show len: "length path < nat ?nn" by simp
  from wf have nn: "?nn \<le> int MAX_WORD_LENGTH" "0 \<le> boardSize bCB" by (simp_all add: wfCB_def)
  with len have len80: "length path < MAX_WORD_LENGTH" by linarith
  from cellIndex_less[OF on] wf have k: "?k < length (used bCB)" "?k < length (board bCB)"
    by (simp_all add: wfCB_def)
  from getBoardIndex_bounds(1)[OF on] have m0: "0 \<le> getBoardIndex bCB r c" by simp
  have slen: "length (search bCB) = MAX_WORD_LENGTH" using wf by (simp add: wfCB_def)
  from getBoardIndex_bounds[OF on] wf
  have ki: "inRange (getBoardIndex bCB r c) (used bCB)" "inRange (getBoardIndex bCB r c) (board bCB)"
    by (simp_all add: wfCB_def inRange_def)
  have si: "inRange (int (length path)) (search bCB)"
    using len80 slen by (simp add: inRange_def)
  show mu: "markUsed bCB r c (int (length path)) = Inr b1"
    using ki si free
    by (simp add: markUsed_def cellIndex_def letterAt_def b1_def Let_def)
  show "wfCB b1" using wf by (simp add: wfCB_def b1_def)
  have st: "onBoard b1 = onBoard bCB" "cellIndex b1 = cellIndex bCB" "letterAt b1 = letterAt bCB"
    "bufferOf b1 = bufferOf bCB"
    by (simp_all add: fun_eq_iff onBoard_def cellIndex_def letterAt_def bufferOf_def
        getBoardIndex_def b1_def)
  have mask1: "maskOf b1 (used b1) (path @ [(r, c)])"
    unfolding maskOf_def st
  proof (intro allI impI)
    fix p assume p: "onBoard bCB p"
    from cellIndex_less[OF p] wf have pk: "cellIndex bCB p < length (used bCB)"
      by (simp add: wfCB_def)
    show "used b1 ! cellIndex bCB p \<longleftrightarrow> p \<in> set (path @ [(r, c)])"
    proof (cases "cellIndex bCB p = ?k")
      case True
      with cellIndex_inj[OF p on] have "p = (r, c)" by simp
      with k show ?thesis by (simp add: b1_def)
    next
      case False
      then have ne: "p \<noteq> (r, c)" by auto
      from mask p have "used bCB ! cellIndex bCB p \<longleftrightarrow> p \<in> set path"
        unfolding maskOf_def by blast
      with False ne show ?thesis by (simp add: b1_def)
    qed
  qed
  have "search b1 = bufferOf bCB (path @ [(r, c)])"
    using bufferOf_snoc[OF len80, of bCB "(r, c)"] buf by (simp add: b1_def)
  then have buf1: "search b1 = bufferOf b1 (path @ [(r, c)])" by (simp only: st)
  have "list_all (onBoard b1) (path @ [(r, c)])" using onp on by (simp only: st) simp
  moreover have "distinct (path @ [(r, c)])" using dist new by simp
  moreover have "successively adjacent (path @ [(r, c)])"
    using succ adj by (simp add: successively_snoc)
  ultimately show "pathInv b1 (path @ [(r, c)])"
    using mask1 buf1 unfolding pathInv_def by blast
  have u: "(used b1)[?k := False] = used bCB"
    using free k by (simp add: b1_def list_update_same_conv)
  have s: "(search b1)[length path := NUL] = search bCB"
    using bufferOf_nth_NUL[OF len80, of bCB] buf len80 slen
    by (simp add: b1_def list_update_same_conv)
  have "getBoardIndex b1 r c = getBoardIndex bCB r c" by (simp add: getBoardIndex_def b1_def)
  moreover have "used b1 ! ?k" using k by (simp add: b1_def)
  moreover have "length (used b1) = length (used bCB)" "length (search b1) = length (search bCB)"
    by (simp_all add: b1_def)
  moreover have "b1\<lparr>used := used bCB, search := search bCB\<rparr> = bCB" by (simp add: b1_def)
  moreover have "inRange (getBoardIndex bCB r c) (used b1)" "inRange (int (length path)) (search b1)"
    using ki si by (simp_all add: inRange_def b1_def)
  ultimately show "markUnused b1 r c (int (length path)) = Inr bCB"
    using u s
    by (simp add: markUnused_def Let_def cellIndex_def)
qed

lemma goodVisit_static:
  assumes "boardSize b1 = boardSize bCB" "board b1 = board bCB"
  shows "goodVisit b1 v = goodVisit bCB v"
proof -
  have "onBoard b1 = onBoard bCB" "cellIndex b1 = cellIndex bCB" "letterAt b1 = letterAt bCB"
    using assms
    by (simp_all add: fun_eq_iff onBoard_def cellIndex_def letterAt_def getBoardIndex_def)
  moreover have "onBoard (b1\<lparr>used := v_used v, search := v_search v\<rparr>) = onBoard b1"
    "cellIndex (b1\<lparr>used := v_used v, search := v_search v\<rparr>) = cellIndex b1"
    "letterAt (b1\<lparr>used := v_used v, search := v_search v\<rparr>) = letterAt b1"
    "onBoard (bCB\<lparr>used := v_used v, search := v_search v\<rparr>) = onBoard bCB"
    "cellIndex (bCB\<lparr>used := v_used v, search := v_search v\<rparr>) = cellIndex bCB"
    "letterAt (bCB\<lparr>used := v_used v, search := v_search v\<rparr>) = letterAt bCB"
    by (simp_all add: fun_eq_iff onBoard_def cellIndex_def letterAt_def getBoardIndex_def)
  ultimately show ?thesis
    by (simp add: goodVisit_def pathInv_def maskOf_def bufferOf_def)
qed

lemma searchOK_nil: "searchOK bCB path d (Inr (bCB, []))"
  by (simp add: searchOK_def)

lemma cstring_bufferOf:
  assumes "list_all lowercase (map (letterAt bCB) path)" "length path < MAX_WORD_LENGTH"
  shows "cstring (bufferOf bCB path) = Inr (map (letterAt bCB) path)"
proof -
  from assms(2) obtain k where k: "MAX_WORD_LENGTH - length path = Suc k"
    by (cases "MAX_WORD_LENGTH - length path") auto
  have nn: "\<forall>c\<in>set (map (letterAt bCB) path). c \<noteq> NUL"
    using assms(1) lowercase_index(3) by (auto simp: list_all_iff)
  then have "takeWhile (\<lambda>c. c \<noteq> NUL) (map (letterAt bCB) path @ replicate (Suc k) NUL)
      = map (letterAt bCB) path"
    by (subst takeWhile_append2) auto
  then show ?thesis by (simp add: cstring_def cstr_def bufferOf_def k)
qed

lemma letters_lowercase:
  assumes "wfCB bCB" "list_all (onBoard bCB) path"
  shows "list_all lowercase (map (letterAt bCB) path)"
proof -
  have "lowercase (letterAt bCB p)" if "p \<in> set path" for p
  proof -
    from that assms(2) have "onBoard bCB p" by (simp add: list_all_iff)
    from cellIndex_less[OF this] assms(1) have "cellIndex bCB p < length (board bCB)"
      by (simp add: wfCB_def)
    then have "board bCB ! cellIndex bCB p \<in> set (board bCB)" by simp
    with assms(1) show ?thesis by (auto simp: wfCB_def list_all_iff letterAt_def)
  qed
  then show ?thesis by (simp add: list_all_iff)
qed

lemma path_length_wf:
  assumes "wfCB bCB" "pathInv bCB path"
  shows "length path < MAX_WORD_LENGTH"
proof -
  from assms(2) have "length path \<le> nat (boardSize bCB * boardSize bCB)"
    by (intro path_length_le) (simp_all add: pathInv_def)
  moreover from assms(1) have "boardSize bCB * boardSize bCB \<le> 64"
    by (intro square_le_80) (simp_all add: wfCB_def MAX_WORD_LENGTH_def)
  ultimately show ?thesis by (simp add: MAX_WORD_LENGTH_def)
qed

lemma report_wf:
  assumes "wfCB bCB" "pathInv bCB path"
  shows "report bCB t row col =
     Inr (if flags t AND FLAGS_ISWORD \<noteq> 0 then [(map (letterAt bCB) path, row, col)] else [])"
proof -
  from assms(2) have "search bCB = bufferOf bCB path" "list_all (onBoard bCB) path"
    by (simp_all add: pathInv_def)
  with cstring_bufferOf[OF letters_lowercase[OF assms(1)] path_length_wf[OF assms]]
  show ?thesis by (simp add: report_def)
qed

lemma searchOK_append:
  assumes "\<forall>v\<in>set vs1. deeper bCB path d v"
    and "\<forall>v\<in>set vs2. deeper bCB path d v"
  shows "searchOK bCB path d (Inr (bCB, vs1 @ vs2))"
  using assms by (auto simp: searchOK_def)

lemma search_invariant:
  "wfCB bCB \<longrightarrow> pathInv bCB path \<longrightarrow> path \<noteq> [] \<longrightarrow> last path = (row, col) \<longrightarrow>
   i = int (length path) \<longrightarrow> node \<noteq> None \<longrightarrow> wfNode node \<longrightarrow>
   searchOK bCB path (length path) (findSolutionT bCB path row col node i)"
  "wfCB bCB \<longrightarrow> pathInv bCB path \<longrightarrow> path \<noteq> [] \<longrightarrow> last path = (row, col) \<longrightarrow>
   i = int (length path) \<longrightarrow> wfNode (Some t) \<longrightarrow> - 1 \<le> rd \<longrightarrow>
   searchOK bCB path (Suc (length path)) (findRowsT bCB path row col t i rd)"
  "wfCB bCB \<longrightarrow> pathInv bCB path \<longrightarrow> path \<noteq> [] \<longrightarrow> last path = (row, col) \<longrightarrow>
   i = int (length path) \<longrightarrow> wfNode (Some t) \<longrightarrow> - 1 \<le> rd \<longrightarrow> rd \<le> 1 \<longrightarrow>
   0 \<le> row + rd \<longrightarrow> row + rd < boardSize bCB \<longrightarrow> - 1 \<le> cd \<longrightarrow>
   searchOK bCB path (Suc (length path)) (findColsT bCB path row col t i rd cd)"
  "wfCB bCB \<longrightarrow> pathInv bCB path \<longrightarrow> path \<noteq> [] \<longrightarrow>
   i = int (length path) \<longrightarrow> wfNode (Some t) \<longrightarrow> 0 \<le> nr \<longrightarrow> nr < boardSize bCB \<longrightarrow>
   \<bar>nr - fst (last path)\<bar> \<le> 1 \<longrightarrow> \<bar>nc - snd (last path)\<bar> \<le> 1 \<longrightarrow>
   searchOK bCB path (Suc (length path)) (tryMoveT bCB path t i nr nc)"
proof (induction bCB path row col node i and bCB path row col t i rd and bCB path row col t i rd cd
     and bCB path t i nr nc rule: search_induct)
  case (Sol bCB path row col node i)
  show ?case
  proof (intro impI)
    assume wf: "wfCB bCB" and inv: "pathInv bCB path" and ne: "path \<noteq> []"
      and lst: "last path = (row, col)" and i: "i = int (length path)"
      and nd: "node \<noteq> None" and wn: "wfNode node"
    from nd obtain t where t: "node = Some t" by auto
    define out where "out =
      (if flags t AND FLAGS_ISWORD \<noteq> 0 then [(map (letterAt bCB) path, row, col)] else [])"
    from report_wf[OF wf inv, of t row col] have rep: "report bCB t row col = Inr out"
      by (simp add: out_def)
    from Sol[OF t rep] wf inv ne lst i wn t
    have "searchOK bCB path (Suc (length path)) (findRowsT bCB path row col t i (- 1))" by simp
    then obtain vs where r: "findRowsT bCB path row col t i (- 1) = Inr (bCB, vs)"
      and vs: "\<forall>v\<in>set vs. deeper bCB path (Suc (length path)) v"
      by (auto simp: searchOK_def)
    let ?v = "\<lparr>v_row = row, v_col = col, v_node = t, v_index = i, v_path = path,
              v_used = used bCB, v_search = search bCB, v_printed = out,
              v_used_out = used bCB, v_search_out = search bCB\<rparr>"
    have "deeper bCB path (length path) ?v"
      using inv ne lst i by (simp add: goodVisit_def deeper_def out_def)
    moreover from vs have "\<forall>v\<in>set vs. deeper bCB path (length path) v"
      by (auto simp: deeper_def)
    ultimately show "searchOK bCB path (length path) (findSolutionT bCB path row col node i)"
      using r rep by (simp add: t findSolutionT_Some searchOK_def)
  qed
next
  case (Rows bCB path row col t i rd)
  show ?case
  proof (intro impI)
    assume wf: "wfCB bCB" and inv: "pathInv bCB path" and ne: "path \<noteq> []"
      and lst: "last path = (row, col)" and i: "i = int (length path)"
      and wn: "wfNode (Some t)" and rd: "- 1 \<le> rd"
    consider "\<not> rd < 2" | "rd < 2" "\<not> (0 \<le> row + rd \<and> row + rd < boardSize bCB)"
      | "rd < 2" "0 \<le> row + rd" "row + rd < boardSize bCB" by blast
    then show "searchOK bCB path (Suc (length path)) (findRowsT bCB path row col t i rd)"
    proof cases
      case 1
      then show ?thesis by (simp add: findRowsT_stop searchOK_nil)
    next
      case 2
      from Rows(3)[OF 2] wf inv ne lst i wn rd
      show ?thesis by (simp add: findRowsT_skip[OF 2])
    next
      case 3
      from Rows(1)[OF 3] wf inv ne lst i wn rd 3
      have "searchOK bCB path (Suc (length path)) (findColsT bCB path row col t i rd (- 1))" by simp
      then obtain vs1 where c: "findColsT bCB path row col t i rd (- 1) = Inr (bCB, vs1)"
        and vs1: "\<forall>v\<in>set vs1. deeper bCB path (Suc (length path)) v"
        by (auto simp: searchOK_def)
      from Rows(2)[OF 3 c] wf inv ne lst i wn rd
      have "searchOK bCB path (Suc (length path)) (findRowsT bCB path row col t i (rd + 1))" by simp
      then obtain vs2 where r: "findRowsT bCB path row col t i (rd + 1) = Inr (bCB, vs2)"
        and vs2: "\<forall>v\<in>set vs2. deeper bCB path (Suc (length path)) v"
        by (auto simp: searchOK_def)
      from searchOK_append[OF vs1 vs2] show ?thesis
        by (simp add: findRowsT_step[OF 3] c r)
    qed
  qed
next
  case (Cols bCB path row col t i rd cd)
  show ?case
  proof (intro impI)
    assume wf: "wfCB bCB" and inv: "pathInv bCB path" and ne: "path \<noteq> []"
      and lst: "last path = (row, col)" and i: "i = int (length path)"
      and wn: "wfNode (Some t)" and rd: "- 1 \<le> rd" "rd \<le> 1"
      and row: "0 \<le> row + rd" "row + rd < boardSize bCB" and cd: "- 1 \<le> cd"
    show "searchOK bCB path (Suc (length path)) (findColsT bCB path row col t i rd cd)"
    proof (cases "cd < 2")
      case False
      then show ?thesis by (simp add: findColsT_stop searchOK_nil)
    next
      case True
      have "\<bar>row + rd - fst (last path)\<bar> \<le> 1" "\<bar>col + cd - snd (last path)\<bar> \<le> 1"
        using rd cd True lst by simp_all
      with Cols(1)[OF True] wf inv ne i wn row
      have "searchOK bCB path (Suc (length path)) (tryMoveT bCB path t i (row + rd) (col + cd))" by simp
      then obtain vs1 where c: "tryMoveT bCB path t i (row + rd) (col + cd) = Inr (bCB, vs1)"
        and vs1: "\<forall>v\<in>set vs1. deeper bCB path (Suc (length path)) v"
        by (auto simp: searchOK_def)
      from Cols(2)[OF True c] wf inv ne lst i wn rd row cd
      have "searchOK bCB path (Suc (length path)) (findColsT bCB path row col t i rd (cd + 1))" by simp
      then obtain vs2 where r: "findColsT bCB path row col t i rd (cd + 1) = Inr (bCB, vs2)"
        and vs2: "\<forall>v\<in>set vs2. deeper bCB path (Suc (length path)) v"
        by (auto simp: searchOK_def)
      from searchOK_append[OF vs1 vs2] show ?thesis
        by (simp add: findColsT_step[OF True] c r)
    qed
  qed
next
  case (Move bCB path t i nr nc)
  show ?case
  proof (intro impI)
    assume wf: "wfCB bCB" and inv: "pathInv bCB path" and ne: "path \<noteq> []"
      and i: "i = int (length path)" and wn: "wfNode (Some t)"
      and nr: "0 \<le> nr" "nr < boardSize bCB"
      and near: "\<bar>nr - fst (last path)\<bar> \<le> 1" "\<bar>nc - snd (last path)\<bar> \<le> 1"
    show "searchOK bCB path (Suc (length path)) (tryMoveT bCB path t i nr nc)"
    proof (cases "0 \<le> nc \<and> nc < boardSize bCB")
      case False
      then show ?thesis by (simp add: tryMoveT_skip searchOK_nil)
    next
      case True
      then have nc: "0 \<le> nc" "nc < boardSize bCB" by simp_all
      with nr have on: "onBoard bCB (nr, nc)" by (simp add: onBoard_def)
      note iv = isValid_wf[OF wf on wn]
      show ?thesis
      proof (cases "\<not> used bCB ! cellIndex bCB (nr, nc)
          \<and> child t ! nat (getCharIndex (letterAt bCB (nr, nc))) \<noteq> None")
        case False
        with iv have "isValid bCB (getBoardIndex bCB nr nc) t = Inr False" by simp
        then show ?thesis by (simp add: tryMoveT_invalid[OF nc] searchOK_nil)
      next
        case valid: True
        with iv have v: "isValid bCB (getBoardIndex bCB nr nc) t = Inr True" by simp
        from valid have free: "\<not> used bCB ! cellIndex bCB (nr, nc)"
          and ch: "child t ! nat (getCharIndex (letterAt bCB (nr, nc))) \<noteq> None" by simp_all
        from inv on free have "(nr, nc) \<notin> set path"
          by (auto simp: pathInv_def maskOf_def)
        with ne have "(nr, nc) \<noteq> last path" by auto
        with near have adj: "path = [] \<or> adjacent (last path) (nr, nc)"
          by (auto simp: adjacent_def abs_minus_commute)
        define b1 where "b1 = bCB\<lparr>used := (used bCB)[cellIndex bCB (nr, nc) := True],
                      search := (search bCB)[length path := letterAt bCB (nr, nc)]\<rparr>"
        note mu = markUsed_wf[OF wf inv on free adj, folded b1_def]
        have lw: "lowercase (letterAt bCB (nr, nc))"
          using letters_lowercase[OF wf, of "[(nr, nc)]"] on by simp
        have wc: "wfNode (child t ! nat (getCharIndex (letterAt bCB (nr, nc))))"
          using lowercase_index(1,2)[OF lw] by (intro wfNode_child(2)[OF wn]) simp
        have la: "letterAt bCB (nr, nc) = board bCB ! nat (getBoardIndex bCB nr nc)"
          by (simp add: letterAt_def cellIndex_def)
        from Move[OF nc v mu(1)[unfolded i[symmetric]]] mu(2,3) ch wc i
        have "searchOK b1 (path @ [(nr, nc)]) (length (path @ [(nr, nc)]))
           (findSolutionT b1 (path @ [(nr, nc)]) nr nc
              (child t ! nat (getCharIndex (board bCB ! nat (getBoardIndex bCB nr nc)))) (i + 1))"
          by (simp add: la)
        then obtain vs where
          fs: "findSolutionT b1 (path @ [(nr, nc)]) nr nc
              (child t ! nat (getCharIndex (board bCB ! nat (getBoardIndex bCB nr nc)))) (i + 1)
              = Inr (b1, vs)"
          and vs: "\<forall>v\<in>set vs. goodVisit b1 v \<and>
               take (length (path @ [(nr, nc)])) (v_path v) = path @ [(nr, nc)] \<and>
               length (path @ [(nr, nc)]) \<le> length (v_path v)"
          by (auto simp: searchOK_def deeper_def)
        have st: "boardSize b1 = boardSize bCB" "board b1 = board bCB" by (simp_all add: b1_def)
        have "deeper bCB path (Suc (length path)) v" if "v \<in> set vs" for v
        proof -
          from vs that have g: "goodVisit b1 v"
            and tk: "take (Suc (length path)) (v_path v) = path @ [(nr, nc)]"
            and ln: "Suc (length path) \<le> length (v_path v)" by simp_all
          have "take (length path) (take (Suc (length path)) (v_path v)) = path"
            by (simp only: tk) simp
          then have "take (length path) (v_path v) = path" by (simp add: min_def)
          with g ln goodVisit_static[OF st] show ?thesis by (simp add: deeper_def)
        qed
        then show ?thesis
          using mu(1,4) fs i
          by (simp add: tryMoveT_valid[OF nc v] searchOK_def)
      qed
    qed
  qed
qed

lemma ready_cleared:
  assumes "ready bCB" "boardSize bCB * boardSize bCB \<le> int MAX_WORD_LENGTH"
  defines "bC \<equiv> bCB\<lparr>search := replicate MAX_WORD_LENGTH NUL\<rparr>"
  shows "wfCB bC" and "pathInv bC []" and "wfNode (dict bC)"
proof -
  show "wfCB bC" using assms(1,2) by (simp add: wfCB_def ready_def bC_def)
  show "wfNode (dict bC)" using assms(1) by (simp add: ready_def bC_def)
  have "maskOf bC (used bC) []"
    unfolding maskOf_def
  proof (intro allI impI)
    fix p assume "onBoard bC p"
    from cellIndex_less[OF this] assms(1)
    show "used bC ! cellIndex bC p \<longleftrightarrow> p \<in> set []"
      by (simp add: bC_def ready_def)
  qed
  then show "pathInv bC []"
    by (simp add: pathInv_def bufferOf_def bC_def)
qed

lemma playCellT_wf:
  assumes wf: "wfCB bCB" and inv: "pathInv bCB []" and wn: "wfNode (dict bCB)"
    and on: "onBoard bCB (i, j)"
  shows "playCellT bCB i j = Inl NullDeref \<or> playCellT bCB i j = Inl AssertFail
     \<or> (\<exists>vs. playCellT bCB i j = Inr (bCB, vs)
           \<and> (\<forall>v\<in>set vs. goodVisit bCB v \<and> take (Suc 0) (v_path v) = [(i, j)]))"
proof (cases "dict bCB")
  case None
  have free: "\<not> used bCB ! cellIndex bCB (i, j)"
    using inv on by (auto simp: pathInv_def maskOf_def)
  define b1 where "b1 = bCB\<lparr>used := (used bCB)[cellIndex bCB (i, j) := True],
                      search := (search bCB)[length ([]::cell list) := letterAt bCB (i, j)]\<rparr>"
  note mu = markUsed_wf[OF wf inv on free, folded b1_def]
  have "dict b1 = None" using None by (simp add: b1_def)
  with mu(1) show ?thesis by (simp add: playCellT_def Let_def)
next
  case (Some root)
  have free: "\<not> used bCB ! cellIndex bCB (i, j)"
    using inv on by (auto simp: pathInv_def maskOf_def)
  define b1 where "b1 = bCB\<lparr>used := (used bCB)[cellIndex bCB (i, j) := True],
                      search := (search bCB)[length ([]::cell list) := letterAt bCB (i, j)]\<rparr>"
  note mu = markUsed_wf[OF wf inv on free, folded b1_def]
  have d1: "dict b1 = Some root" using Some by (simp add: b1_def)
  have la: "board b1 ! nat (getBoardIndex b1 i j) = letterAt bCB (i, j)"
    by (simp add: letterAt_def cellIndex_def getBoardIndex_def b1_def)
  have lw: "lowercase (letterAt bCB (i, j))"
    using letters_lowercase[OF wf, of "[(i, j)]"] on by simp
  from wn Some have wr: "wfNode (Some root)" by simp
  define k where "k = getCharIndex (letterAt bCB (i, j))"
  have rng: "inRange k (child root)"
    using lowercase_index(1,2)[OF lw] wfNode_child(1)[OF wr] by (simp add: inRange_def k_def)
  have wc: "wfNode (child root ! nat k)"
    using lowercase_index(1,2)[OF lw] by (intro wfNode_child(2)[OF wr]) (simp add: k_def)
  show ?thesis
  proof (cases "child root ! nat k")
    case None
    with mu(1) d1 la rng show ?thesis
      by (simp add: playCellT_def Let_def k_def findSolutionT_None)
  next
    case (Some t)
    have "searchOK b1 [(i, j)] (length [(i, j)]) (findSolutionT b1 [(i, j)] i j (child root ! nat k) 1)"
      using search_invariant(1)[of b1 "[(i, j)]" i j 1 "child root ! nat k"] mu(2,3) wc Some
      by simp
    then obtain vs where fs: "findSolutionT b1 [(i, j)] i j (child root ! nat k) 1 = Inr (b1, vs)"
      and vs: "\<forall>v\<in>set vs. goodVisit b1 v \<and> take (Suc 0) (v_path v) = [(i, j)]"
      by (auto simp: searchOK_def deeper_def)
    have st: "boardSize b1 = boardSize bCB" "board b1 = board bCB" by (simp_all add: b1_def)
    from vs have "\<forall>v\<in>set vs. goodVisit bCB v \<and> take (Suc 0) (v_path v) = [(i, j)]"
      by (simp add: goodVisit_static[OF st])
    with mu(1,4) d1 la rng fs show ?thesis
      by (simp add: playCellT_def Let_def k_def)
  qed
qed

lemma driveOK_nil: "driveOK bCB (Inr (bCB, []))"
  by (simp add: driveOK_def)

lemma driveOK_seq:
  assumes "driveOK bCB r1" and "driveOK bCB r2"
  shows "driveOK bCB
     (case r1 of Inl e \<Rightarrow> Inl e
      | Inr (b1, vs1) \<Rightarrow> (case r2 of Inl e \<Rightarrow> Inl e | Inr (b2, vs2) \<Rightarrow> Inr (b2, vs1 @ vs2)))"
  using assms by (auto simp: driveOK_def)

lemma playColsT_wf:
  "wfCB bCB \<Longrightarrow> pathInv bCB [] \<Longrightarrow> wfNode (dict bCB) \<Longrightarrow> 0 \<le> i \<Longrightarrow> i < boardSize bCB \<Longrightarrow>
   0 \<le> j \<Longrightarrow> driveOK bCB (playColsT bCB i j)"
proof (induction bCB i j rule: playColsT.induct)
  case (1 bCB i j)
  show ?case
  proof (cases "j < boardSize bCB")
    case False
    then show ?thesis by (simp add: playColsT.simps[of bCB] driveOK_nil)
  next
    case True
    with "1.prems" have on: "onBoard bCB (i, j)" by (simp add: onBoard_def)
    from playCellT_wf[OF "1.prems"(1,2,3) on]
    have c: "driveOK bCB (playCellT bCB i j)" by (auto simp: driveOK_def)
    show ?thesis
    proof (cases "playCellT bCB i j")
      case (Inl e)
      with c True show ?thesis by (simp add: playColsT.simps[of bCB] driveOK_def)
    next
      case (Inr p)
      with c obtain vs1 where p: "p = (bCB, vs1)" by (auto simp: driveOK_def)
      from "1.IH"[OF True Inr p[symmetric]] "1.prems"
      have "driveOK bCB (playColsT bCB i (j + 1))" by simp
      from driveOK_seq[OF c this] True Inr p show ?thesis
        by (simp add: playColsT.simps[of bCB i j])
    qed
  qed
qed

lemma playRowsT_wf:
  "wfCB bCB \<Longrightarrow> pathInv bCB [] \<Longrightarrow> wfNode (dict bCB) \<Longrightarrow> 0 \<le> i \<Longrightarrow>
   driveOK bCB (playRowsT bCB i)"
proof (induction bCB i rule: playRowsT.induct)
  case (1 bCB i)
  show ?case
  proof (cases "i < boardSize bCB")
    case False
    then show ?thesis by (simp add: playRowsT.simps[of bCB] driveOK_nil)
  next
    case True
    from playColsT_wf[OF "1.prems"(1,2,3,4) True, of 0]
    have c: "driveOK bCB (playColsT bCB i 0)" by simp
    show ?thesis
    proof (cases "playColsT bCB i 0")
      case (Inl e)
      with c True show ?thesis by (simp add: playRowsT.simps[of bCB] driveOK_def)
    next
      case (Inr p)
      with c obtain vs1 where p: "p = (bCB, vs1)" by (auto simp: driveOK_def)
      from "1.IH"[OF True Inr p[symmetric]] "1.prems"
      have "driveOK bCB (playRowsT bCB (i + 1))" by simp
      from driveOK_seq[OF c this] True Inr p show ?thesis
        by (simp add: playRowsT.simps[of bCB i])
    qed
  qed
qed

lemma playBoggleT_wf:
  assumes "ready bCB"
  shows "playBoggleT bCB = Inl NullDeref \<or> playBoggleT bCB = Inl AssertFail
     \<or> (\<exists>vs. playBoggleT bCB = Inr (bCB\<lparr>search := replicate MAX_WORD_LENGTH NUL\<rparr>, vs)
           \<and> (\<forall>v\<in>set vs. goodVisit bCB v))"
proof (cases "boardSize bCB * boardSize bCB \<le> int MAX_WORD_LENGTH")
  case False
  then show ?thesis by (simp add: playBoggleT_def)
next
  case True
  let ?b = "bCB\<lparr>search := replicate MAX_WORD_LENGTH NUL\<rparr>"
  note c = ready_cleared[OF assms True]
  from playRowsT_wf[OF c, of 0] have "driveOK ?b (playRowsT ?b 0)" by simp
  moreover have "goodVisit ?b v = goodVisit bCB v" for v
    by (rule goodVisit_static) simp_all
  ultimately show ?thesis using True
    by (simp add: playBoggleT_def driveOK_def)
qed

lemma set_cells: "set (cells bCB) = {p. onBoard bCB p}"
  by (auto simp: cells_def onBoard_def)

lemma maskOf_code [code]:
  "maskOf bCB u path = list_all (\<lambda>p. u ! cellIndex bCB p \<longleftrightarrow> p \<in> set path) (cells bCB)"
  by (simp add: maskOf_def list_all_iff set_cells)

lemma successively_nth:
  "successively P xs \<Longrightarrow> Suc k < length xs \<Longrightarrow> P (xs ! k) (xs ! Suc k)"
proof (induction P xs arbitrary: k rule: successively.induct)
  case (3 P x y xs)
  then show ?case by (cases k) auto
qed simp_all

lemma playBoggleT_visits:
  assumes "ready bCB" and "playBoggleT bCB = Inr (b', vs)"
  shows "b' = bCB\<lparr>search := replicate MAX_WORD_LENGTH NUL\<rparr>" and "\<forall>v\<in>set vs. goodVisit bCB v"
  using playBoggleT_wf[OF assms(1)] assms(2) by auto

lemma goodVisit_path:
  assumes "goodVisit bCB v"
  shows "list_all (onBoard bCB) (v_path v)" and "distinct (v_path v)"
    and "successively adjacent (v_path v)" and "maskOf bCB (v_used v) (v_path v)"
    and "v_search v = bufferOf bCB (v_path v)"
proof -
  have "onBoard (bCB\<lparr>used := v_used v, search := v_search v\<rparr>) = onBoard bCB"
    "cellIndex (bCB\<lparr>used := v_used v, search := v_search v\<rparr>) = cellIndex bCB"
    "letterAt (bCB\<lparr>used := v_used v, search := v_search v\<rparr>) = letterAt bCB"
    by (simp_all add: fun_eq_iff onBoard_def cellIndex_def letterAt_def getBoardIndex_def)
  with assms show "list_all (onBoard bCB) (v_path v)" and "distinct (v_path v)"
    and "successively adjacent (v_path v)" and "maskOf bCB (v_used v) (v_path v)"
    and "v_search v = bufferOf bCB (v_path v)"
    by (simp_all add: goodVisit_def pathInv_def maskOf_def bufferOf_def)
qed

lemma ex_ready: "ready exBuilt"
  by code_simp

lemma goodVisit_depth:
  assumes "goodVisit bCB v"
  shows "v_index v = int (length (v_path v))"
    and "v_index v \<le> boardSize bCB * boardSize bCB"
proof -
  show i: "v_index v = int (length (v_path v))" using assms by (simp add: goodVisit_def)
  have "0 \<le> boardSize bCB * boardSize bCB" by simp
  with path_length_le[OF goodVisit_path(1,2)[OF assms]]
  show "v_index v \<le> boardSize bCB * boardSize bCB" unfolding i by linarith
qed

lemma ex_wfCB: "wfCB exMarked"
  by code_simp

lemma ex_pathInv: "pathInv exMarked [(0, 0)]"
  by code_simp

lemma ex_wfNode: "wfNode (Some exNode)"
  by code_simp

lemma trieDescend_Completed:
  "trieDescend hist cur w heap = Inr (Completed, cur', a, heap') \<Longrightarrow> list_all (present hist) w"
proof (induction hist cur w heap arbitrary: cur' a heap' rule: trieDescend.induct)
  case (1 hist cur heap)
  then show ?case by simp
next
  case (2 hist cur c cs heap)
  from "2.prems" have rng1: "inRange (getCharIndex c) hist"
    and nz: "hist ! nat (getCharIndex c) \<noteq> 0"
    by (auto simp: Let_def split: if_splits)
  with "2.prems" have rng2: "inRange (getCharIndex c) (child cur)"
    by (auto simp: Let_def split: if_splits)
  from "2.prems" rng1 rng2 nz obtain n and a0 :: nat and h0 n' a' where
    look: "(case child cur ! nat (getCharIndex c) of
                 Some n \<Rightarrow> (Some n, 0, heap)
               | None \<Rightarrow> (case trieAllocNode heap of (n, heap') \<Rightarrow> (n, 1, heap'))) = (Some n, a0, h0)"
    and d: "trieDescend hist (Trie c (flags n) (child n)) cs h0 = Inr (Completed, n', a', heap')"
    by (auto simp: Let_def split: sum.splits prod.splits option.splits)
  have "list_all (present hist) cs"
    using "2.IH"[of "getCharIndex c" "Some n" "(a0, h0)" n a0 h0 n' a' heap'] rng1 rng2 nz look d
    by simp
  moreover from nz rng1 have "present hist c" by (simp add: present_def)
  ultimately show ?case by simp
qed

lemma trieDescend_allocs:
  "trieDescend hist cur w heap = Inr (st, cur', a, heap') \<Longrightarrow>
   a \<le> length (takeWhile (present hist) w)"
proof (induction hist cur w heap arbitrary: st cur' a heap' rule: trieDescend.induct)
  case (1 hist cur heap)
  then show ?case by simp
next
  case (2 hist cur c cs heap)
  from "2.prems" have rng1: "inRange (getCharIndex c) hist"
    by (auto simp: Let_def split: if_splits)
  show ?case
  proof (cases "hist ! nat (getCharIndex c) = 0")
    case True
    with "2.prems" rng1 show ?thesis by (simp add: Let_def)
  next
    case nz: False
    with "2.prems" rng1 have rng2: "inRange (getCharIndex c) (child cur)"
      by (auto simp: Let_def split: if_splits)
    obtain p and a0 :: nat and h0 where
      look: "(case child cur ! nat (getCharIndex c) of
                 Some n \<Rightarrow> (Some n, 0, heap)
               | None \<Rightarrow> (case trieAllocNode heap of (n, heap') \<Rightarrow> (n, 1, heap'))) = (p, a0, h0)"
      by (metis prod_cases3)
    then have a0: "a0 \<le> 1" by (auto split: option.splits prod.splits)
    show ?thesis
    proof (cases p)
      case None
      with "2.prems" rng1 rng2 nz look show ?thesis by (simp add: Let_def)
    next
      case (Some n)
      with "2.prems" rng1 rng2 nz look obtain n' a' where
        d: "trieDescend hist (Trie c (flags n) (child n)) cs h0 = Inr (st, n', a', heap')"
        and a: "a = a0 + a'"
        by (auto simp: Let_def split: sum.splits)
      have "a' \<le> length (takeWhile (present hist) cs)"
        using "2.IH"[of "getCharIndex c" "Some n" "(a0, h0)" n a0 h0 st n' a' heap']
          rng1 rng2 nz look d Some by simp
      moreover from nz rng1 have "present hist c" by (simp add: present_def)
      ultimately show ?thesis using a a0 by simp
    qed
  qed
qed

lemma isWord_ch: "isWord (Trie c (flags n) (child n)) u = isWord n u"
  by (cases u) simp_all

lemma isWord_fresh: "isWord (Trie c 0 (replicate ALPHABET_SIZE None)) u = False"
proof (cases u)
  case Nil
  then show ?thesis by simp
next
  case (Cons d ds)
  show ?thesis
  proof (cases "inRange (getCharIndex d) (replicate ALPHABET_SIZE (None :: Trie option))")
    case False
    then show ?thesis by (simp add: Cons)
  next
    case True
    then have "nat (getCharIndex d) < ALPHABET_SIZE" by (auto simp: inRange_def)
    then show ?thesis by (simp add: Cons)
  qed
qed

lemma trieDescend_isWord:
  "trieDescend hist cur w heap = Inr (st, cur', a, heap') \<Longrightarrow> st \<noteq> Completed \<Longrightarrow>
   isWord cur' u = isWord cur u"
proof (induction hist cur w heap arbitrary: st cur' a heap' u rule: trieDescend.induct)
  case (1 hist cur heap)
  then show ?case by simp
next
  case (2 hist cur c cs heap)
  define k where "k = nat (getCharIndex c)"
  from "2.prems" have rng1: "inRange (getCharIndex c) hist"
    by (auto simp: Let_def split: if_splits)
  show ?case
  proof (cases "hist ! k = 0")
    case True
    with "2.prems" rng1 show ?thesis by (simp add: Let_def k_def)
  next
    case nz: False
    with "2.prems" rng1 have rng2: "inRange (getCharIndex c) (child cur)"
      by (auto simp: Let_def k_def split: if_splits)
    then have klen: "k < length (child cur)" and k0: "0 \<le> getCharIndex c"
      by (auto simp: inRange_def k_def)
    obtain p and a0 :: nat and h0 where
      look: "(case child cur ! k of
                 Some n \<Rightarrow> (Some n, 0, heap)
               | None \<Rightarrow> (case trieAllocNode heap of (n, heap') \<Rightarrow> (n, 1, heap'))) = (p, a0, h0)"
      by (metis prod_cases3)
    show ?thesis
    proof (cases p)
      case None
      with "2.prems" rng1 rng2 nz look show ?thesis by (simp add: Let_def k_def)
    next
      case (Some n)
      with "2.prems"(1) rng1 rng2 nz look obtain n' a' where
        d: "trieDescend hist (Trie c (flags n) (child n)) cs h0 = Inr (st, n', a', heap')"
        and c': "cur' = Trie (ch cur) (flags cur) ((child cur)[k := Some n'])"
        by (auto simp: Let_def k_def split: sum.splits)
      have ih: "isWord n' v = isWord (Trie c (flags n) (child n)) v" for v
        using "2.IH"[of "getCharIndex c" "Some n" "(a0, h0)" n a0 h0 st n' a' heap' v]
          rng1 rng2 nz look d Some "2.prems"(2) by (simp add: k_def)
      have old: "(case child cur ! k of None \<Rightarrow> False | Some m \<Rightarrow> isWord m v) = isWord n' v" for v
      proof (cases "child cur ! k")
        case None
        with look Some have "n = Trie NUL 0 (replicate ALPHABET_SIZE None)"
          by (auto simp: trieAllocNode_def split: if_splits)
        with ih[of v] None show ?thesis by (simp add: isWord_fresh)
      next
        case (Some m)
        with look \<open>p = Some n\<close> have "m = n" by simp
        with ih[of v] Some show ?thesis by (simp add: isWord_ch)
      qed
      show ?thesis
      proof (cases u)
        case Nil
        then show ?thesis by (simp add: c')
      next
        case (Cons d ds)
        show ?thesis
        proof (cases "inRange (getCharIndex d) (child cur)")
          case False
          then show ?thesis by (simp add: Cons c' inRange_def)
        next
          case True
          then have r': "inRange (getCharIndex d) ((child cur)[k := Some n'])"
            by (simp add: inRange_def)
          show ?thesis
          proof (cases "nat (getCharIndex d) = k")
            case True
            with r' \<open>inRange (getCharIndex d) (child cur)\<close> klen old[of ds] show ?thesis
              by (simp add: Cons c')
          next
            case False
            with r' \<open>inRange (getCharIndex d) (child cur)\<close> show ?thesis
              by (simp add: Cons c')
          qed
        qed
      qed
    qed
  qed
qed

lemma countLetters_mono:
  "countLetters cs h = Inr h' \<Longrightarrow> length h' = length h \<and> (\<forall>k<length h. h ! k \<le> h' ! k)"
proof (induction cs arbitrary: h)
  case Nil
  then show ?case by simp
next
  case (Cons c cs)
  let ?h1 = "h[nat (getCharIndex c) := h ! nat (getCharIndex c) + 1]"
  from Cons.prems have r: "countLetters cs ?h1 = Inr h'"
    by (auto simp: Let_def split: if_splits)
  from Cons.IH[OF r] have l: "length h' = length h" and m: "\<forall>k<length h. ?h1 ! k \<le> h' ! k"
    by simp_all
  have "h ! k \<le> h' ! k" if "k < length h" for k
  proof -
    have "h ! k \<le> ?h1 ! k" using that by (cases "k = nat (getCharIndex c)") simp_all
    with m that show ?thesis by force
  qed
  with l show ?case by simp
qed

lemma countLetters_present:
  "countLetters cs h = Inr h' \<Longrightarrow> c \<in> set cs \<Longrightarrow>
   inRange (getCharIndex c) h \<and> h ! nat (getCharIndex c) < h' ! nat (getCharIndex c)"
proof (induction cs arbitrary: h)
  case Nil
  then show ?case by simp
next
  case (Cons d cs)
  let ?h1 = "h[nat (getCharIndex d) := h ! nat (getCharIndex d) + 1]"
  from Cons.prems(1) have r: "countLetters cs ?h1 = Inr h'" and rng: "inRange (getCharIndex d) h"
    by (auto simp: Let_def split: if_splits)
  from rng have dl: "nat (getCharIndex d) < length h" by (auto simp: inRange_def)
  show ?case
  proof (cases "c \<in> set cs")
    case True
    from Cons.IH[OF r True] have i: "inRange (getCharIndex c) h"
      and "?h1 ! nat (getCharIndex c) < h' ! nat (getCharIndex c)"
      by (simp_all add: inRange_def)
    moreover have "h ! nat (getCharIndex c) \<le> ?h1 ! nat (getCharIndex c)"
      by (cases "nat (getCharIndex c) = nat (getCharIndex d)") (use dl in simp_all)
    ultimately show ?thesis by linarith
  next
    case False
    with Cons.prems(2) have "c = d" by simp
    from countLetters_mono[OF r] dl
    have "?h1 ! nat (getCharIndex d) \<le> h' ! nat (getCharIndex d)" by force
    with \<open>c = d\<close> dl rng show ?thesis by simp
  qed
qed

lemma board_letters_present:
  assumes "countLetters bd (replicate ALPHABET_SIZE 0) = Inr hist" and "c \<in> set bd"
  shows "present hist c"
proof -
  from countLetters_mono[OF assms(1)] have l: "length hist = ALPHABET_SIZE" by simp
  from countLetters_present[OF assms]
  have i: "inRange (getCharIndex c) (replicate ALPHABET_SIZE (0::int))"
    and "replicate ALPHABET_SIZE (0::int) ! nat (getCharIndex c) < hist ! nat (getCharIndex c)"
    by simp_all
  moreover from i have "nat (getCharIndex c) < ALPHABET_SIZE" by (auto simp: inRange_def)
  ultimately show ?thesis using l by (simp add: present_def inRange_def)
qed

lemma trieAddWord_rejected:
  assumes "\<not> list_all (present (histogram bCB)) word"
    and "trieAddWord bCB word heap = Inr (ok, added, bCB', heap')"
  shows "\<not> added" and "dictHas (dict bCB') u = dictHas (dict bCB) u"
    and "trieAllocCalls bCB' \<le> trieAllocCalls bCB + length (takeWhile (present (histogram bCB)) word)"
    and "countNode (dict bCB') + trieAllocCalls bCB = countNode (dict bCB) + trieAllocCalls bCB'"
proof -
  from assms(1) obtain c cs where w: "word = c # cs" by (cases word) auto
  have "\<not> added \<and> dictHas (dict bCB') u = dictHas (dict bCB) u
      \<and> trieAllocCalls bCB' \<le> trieAllocCalls bCB + length (takeWhile (present (histogram bCB)) word)
      \<and> countNode (dict bCB') + trieAllocCalls bCB = countNode (dict bCB) + trieAllocCalls bCB'"
  proof (cases "dict bCB")
    case None
    with assms(2) w have "bCB' = bCB" "\<not> added"
      by (auto simp: trieAddWord_def split: if_splits)
    then show ?thesis by simp
  next
    case (Some root)
    with assms(2) w obtain st root' a where
      d: "trieDescend (histogram bCB) root word heap = Inr (st, root', a, heap')"
      and ad: "added = (st = Completed)"
      and b': "bCB' = bCB\<lparr>dict := Some root', trieAllocCalls := trieAllocCalls bCB + a\<rparr>"
      by (auto simp: trieAddWord_def split: sum.splits)
    from trieDescend_Completed[of "histogram bCB" root word heap root' a heap'] d assms(1)
    have st: "st \<noteq> Completed" by auto
    from trieDescend_isWord[OF d st] trieDescend_allocs[OF d] trieDescend_count[OF d] st
    show ?thesis by (simp add: ad b' Some dictHas_def)
  qed
  then show "\<not> added" and "dictHas (dict bCB') u = dictHas (dict bCB) u"
    and "trieAllocCalls bCB' \<le> trieAllocCalls bCB + length (takeWhile (present (histogram bCB)) word)"
    and "countNode (dict bCB') + trieAllocCalls bCB = countNode (dict bCB) + trieAllocCalls bCB'"
    by simp_all
qed

lemma ex_hist: "countLetters (board exStart) (replicate ALPHABET_SIZE 0) = Inr (histogram exStart)"
  by code_simp

lemma ex_run_plain: "playBoggle exBuilt = Inr (exCleared, printed exVisits)"
  by code_simp

lemma ex_long:
  "chop (''abbaz'' @ [CHR 0x0A]) = Inr ''abbaz''"
  "boardSize exStart * boardSize exStart < int (length ''abbaz'')"
  "\<not> list_all (present (histogram exStart)) ''abbaz''"
  "trieAddWord exStart ''abbaz'' 99 = Inr (True, False, exLong, 95)"
  "ready exBuilt" "board exBuilt = board exStart" "boardSize exBuilt = boardSize exStart"
  by code_simp+

subsection \<open>The search from one cell\<close>

lemma isWord_walkTo:
  "isWord t w = (case walkTo t w of None \<Rightarrow> False | Some n \<Rightarrow> flags n AND FLAGS_ISWORD \<noteq> 0)"
  by (induction t w rule: walkTo.induct) (auto split: option.splits)

lemma walkTo_snoc:
  "walkTo t (w @ [c]) =
     (case walkTo t w of
        None \<Rightarrow> None
      | Some n \<Rightarrow> if \<not> inRange (getCharIndex c) (child n) then None
                  else child n ! nat (getCharIndex c))"
  by (induction t w rule: walkTo.induct) (auto split: option.splits)

lemma sameStatic_fields:
  assumes "sameStatic a b"
  shows "board b = board a" "boardSize b = boardSize a" "dict b = dict a"
  using assms by (cases a, cases b; simp add: sameStatic_def)+

lemma letterAt_static:
  "board b = board a \<Longrightarrow> boardSize b = boardSize a \<Longrightarrow> letterAt b = letterAt a"
  by (simp add: fun_eq_iff letterAt_def cellIndex_def getBoardIndex_def)

text \<open>
  The node of every recorded call is the node on which the walk by the
  letters of its path ends.
\<close>

lemma search_nodes:
  "\<forall>b' vs. findSolutionT bCB path row col node i = Inr (b', vs) \<longrightarrow> sameStatic b0 bCB \<longrightarrow>
      walkTo root (map (letterAt b0) path) = node \<longrightarrow>
      (\<forall>v\<in>set vs. walkTo root (map (letterAt b0) (v_path v)) = Some (v_node v))"
  "\<forall>b' vs. findRowsT bCB path row col t i rd = Inr (b', vs) \<longrightarrow> sameStatic b0 bCB \<longrightarrow>
      walkTo root (map (letterAt b0) path) = Some t \<longrightarrow>
      (\<forall>v\<in>set vs. walkTo root (map (letterAt b0) (v_path v)) = Some (v_node v))"
  "\<forall>b' vs. findColsT bCB path row col t i rd cd = Inr (b', vs) \<longrightarrow> sameStatic b0 bCB \<longrightarrow>
      walkTo root (map (letterAt b0) path) = Some t \<longrightarrow>
      (\<forall>v\<in>set vs. walkTo root (map (letterAt b0) (v_path v)) = Some (v_node v))"
  "\<forall>b' vs. tryMoveT bCB path t i nr nc = Inr (b', vs) \<longrightarrow> sameStatic b0 bCB \<longrightarrow>
      walkTo root (map (letterAt b0) path) = Some t \<longrightarrow>
      (\<forall>v\<in>set vs. walkTo root (map (letterAt b0) (v_path v)) = Some (v_node v))"
proof (induction bCB path row col node i and bCB path row col t i rd and bCB path row col t i rd cd
     and bCB path t i nr nc rule: search_induct)
  case (Sol bCB path row col node i)
  show ?case
  proof (cases node)
    case None
    then show ?thesis by (simp add: findSolutionT_None)
  next
    case (Some t)
    show ?thesis
    proof (intro allI impI)
      fix b' vs
      assume r: "findSolutionT bCB path row col node i = Inr (b', vs)"
        and st: "sameStatic b0 bCB" and w: "walkTo root (map (letterAt b0) path) = node"
      from r obtain out ws where rep: "report bCB t row col = Inr out"
        and fr: "findRowsT bCB path row col t i (- 1) = Inr (b', ws)"
        and vs: "vs = \<lparr>v_row = row, v_col = col, v_node = t, v_index = i, v_path = path,
                           v_used = used bCB, v_search = search bCB, v_printed = out,
                           v_used_out = used b', v_search_out = search b'\<rparr> # ws"
        by (auto simp: Some findSolutionT_Some split: sum.splits)
      from Sol[OF Some rep] fr st w Some
      have "\<forall>v\<in>set ws. walkTo root (map (letterAt b0) (v_path v)) = Some (v_node v)" by blast
      with w Some show "\<forall>v\<in>set vs. walkTo root (map (letterAt b0) (v_path v)) = Some (v_node v)"
        by (simp add: vs)
    qed
  qed
next
  case (Rows bCB path row col t i rd)
  consider "\<not> rd < 2" | "rd < 2" "\<not> (0 \<le> row + rd \<and> row + rd < boardSize bCB)"
    | "rd < 2" "0 \<le> row + rd" "row + rd < boardSize bCB" by blast
  then show ?case
  proof cases
    case 1
    then show ?thesis by (simp add: findRowsT_stop)
  next
    case 2
    then show ?thesis using Rows(3) by (simp add: findRowsT_skip)
  next
    case 3
    show ?thesis
    proof (intro allI impI)
      fix b' vs
      assume r: "findRowsT bCB path row col t i rd = Inr (b', vs)"
        and st: "sameStatic b0 bCB" and w: "walkTo root (map (letterAt b0) path) = Some t"
      from r obtain b1 vs1 vs2 where c: "findColsT bCB path row col t i rd (- 1) = Inr (b1, vs1)"
        and r2: "findRowsT b1 path row col t i (rd + 1) = Inr (b', vs2)" and vs: "vs = vs1 @ vs2"
        by (auto simp: findRowsT_step[OF 3] split: sum.splits)
      from findSolutionT_sameStatic(3)[of bCB path row col t i rd "- 1"] c st
      have st1: "sameStatic b0 b1" by (blast intro: sameStatic_trans)
      from Rows(1)[OF 3] c st w
      have "\<forall>v\<in>set vs1. walkTo root (map (letterAt b0) (v_path v)) = Some (v_node v)" by blast
      moreover from Rows(2)[OF 3 c] r2 st1 w
      have "\<forall>v\<in>set vs2. walkTo root (map (letterAt b0) (v_path v)) = Some (v_node v)" by blast
      ultimately show "\<forall>v\<in>set vs. walkTo root (map (letterAt b0) (v_path v)) = Some (v_node v)"
        by (auto simp: vs)
    qed
  qed
next
  case (Cols bCB path row col t i rd cd)
  show ?case
  proof (cases "cd < 2")
    case False
    then show ?thesis by (simp add: findColsT_stop)
  next
    case True
    show ?thesis
    proof (intro allI impI)
      fix b' vs
      assume r: "findColsT bCB path row col t i rd cd = Inr (b', vs)"
        and st: "sameStatic b0 bCB" and w: "walkTo root (map (letterAt b0) path) = Some t"
      from r obtain b1 vs1 vs2 where
        c: "tryMoveT bCB path t i (row + rd) (col + cd) = Inr (b1, vs1)"
        and r2: "findColsT b1 path row col t i rd (cd + 1) = Inr (b', vs2)" and vs: "vs = vs1 @ vs2"
        by (auto simp: findColsT_step[OF True] split: sum.splits)
      from findSolutionT_sameStatic(4)[of bCB path t i "row + rd" "col + cd"] c st
      have st1: "sameStatic b0 b1" by (blast intro: sameStatic_trans)
      from Cols(1)[OF True] c st w
      have "\<forall>v\<in>set vs1. walkTo root (map (letterAt b0) (v_path v)) = Some (v_node v)" by blast
      moreover from Cols(2)[OF True c] r2 st1 w
      have "\<forall>v\<in>set vs2. walkTo root (map (letterAt b0) (v_path v)) = Some (v_node v)" by blast
      ultimately show "\<forall>v\<in>set vs. walkTo root (map (letterAt b0) (v_path v)) = Some (v_node v)"
        by (auto simp: vs)
    qed
  qed
next
  case (Move bCB path t i nr nc)
  show ?case
  proof (cases "0 \<le> nc \<and> nc < boardSize bCB")
    case False
    then show ?thesis by (simp add: tryMoveT_skip)
  next
    case True
    then have nc: "0 \<le> nc" "nc < boardSize bCB" by simp_all
    show ?thesis
    proof (cases "isValid bCB (getBoardIndex bCB nr nc) t")
      case (Inl e)
      then show ?thesis by (simp add: tryMoveT_error[OF nc])
    next
      case (Inr valid)
      show ?thesis
      proof (cases valid)
        case False
        then show ?thesis using Inr by (simp add: tryMoveT_invalid[OF nc])
      next
        case True
        with Inr have v: "isValid bCB (getBoardIndex bCB nr nc) t = Inr True" by simp
        show ?thesis
        proof (intro allI impI)
          fix b' vs
          assume r: "tryMoveT bCB path t i nr nc = Inr (b', vs)"
            and st: "sameStatic b0 bCB" and w: "walkTo root (map (letterAt b0) path) = Some t"
          from r obtain b1 b2 where mu: "markUsed bCB nr nc i = Inr b1"
            and fs: "findSolutionT b1 (path @ [(nr, nc)]) nr nc
                  (child t ! nat (getCharIndex (board bCB ! nat (getBoardIndex bCB nr nc))))
                  (i + 1) = Inr (b2, vs)"
            by (auto simp: tryMoveT_valid[OF nc v] split: sum.splits)
          from markUsed_sameStatic[OF mu] st have st1: "sameStatic b0 b1"
            by (blast intro: sameStatic_trans)
          have la: "letterAt b0 (nr, nc) = board bCB ! nat (getBoardIndex bCB nr nc)"
            using sameStatic_fields(1,2)[OF st]
            by (simp add: letterAt_def cellIndex_def getBoardIndex_def)
          have "walkTo root (map (letterAt b0) (path @ [(nr, nc)]))
              = child t ! nat (getCharIndex (board bCB ! nat (getBoardIndex bCB nr nc)))"
            using isValid_TrueD(4)[OF v] w by (simp add: walkTo_snoc la)
          with Move[OF nc v mu] fs st1
          show "\<forall>v\<in>set vs. walkTo root (map (letterAt b0) (v_path v)) = Some (v_node v)"
            by blast
        qed
      qed
    qed
  qed
qed

lemma playCellT_cell:
  assumes wf: "wfCB bCB" and inv: "pathInv bCB []" and wn: "wfNode (dict bCB)"
    and on: "onBoard bCB (i, j)"
  shows "(startNode bCB (i, j) = None
          \<and> (playCellT bCB i j = Inl NullDeref \<or> playCellT bCB i j = Inl AssertFail))
     \<or> (\<exists>root t vs. dict bCB = Some root \<and> startNode bCB (i, j) = Some t
           \<and> playCellT bCB i j = Inr (bCB, vs)
           \<and> (\<forall>v\<in>set vs. goodVisit bCB v \<and> take (Suc 0) (v_path v) = [(i, j)]
                 \<and> walkTo root (map (letterAt bCB) (v_path v)) = Some (v_node v)))"
proof (cases "dict bCB")
  case None
  have free: "\<not> used bCB ! cellIndex bCB (i, j)"
    using inv on by (auto simp: pathInv_def maskOf_def)
  define b1 where "b1 = bCB\<lparr>used := (used bCB)[cellIndex bCB (i, j) := True],
                      search := (search bCB)[length ([]::cell list) := letterAt bCB (i, j)]\<rparr>"
  note mu = markUsed_wf[OF wf inv on free, folded b1_def]
  have "dict b1 = None" using None by (simp add: b1_def)
  with mu(1) None show ?thesis by (simp add: playCellT_def Let_def startNode_def)
next
  case (Some root)
  have free: "\<not> used bCB ! cellIndex bCB (i, j)"
    using inv on by (auto simp: pathInv_def maskOf_def)
  define b1 where "b1 = bCB\<lparr>used := (used bCB)[cellIndex bCB (i, j) := True],
                      search := (search bCB)[length ([]::cell list) := letterAt bCB (i, j)]\<rparr>"
  note mu = markUsed_wf[OF wf inv on free, folded b1_def]
  have d1: "dict b1 = Some root" using Some by (simp add: b1_def)
  have la: "board b1 ! nat (getBoardIndex b1 i j) = letterAt bCB (i, j)"
    by (simp add: letterAt_def cellIndex_def getBoardIndex_def b1_def)
  have lw: "lowercase (letterAt bCB (i, j))"
    using letters_lowercase[OF wf, of "[(i, j)]"] on by simp
  from wn Some have wr: "wfNode (Some root)" by simp
  define k where "k = getCharIndex (letterAt bCB (i, j))"
  have rng: "inRange k (child root)"
    using lowercase_index(1,2)[OF lw] wfNode_child(1)[OF wr] by (simp add: inRange_def k_def)
  have wc: "wfNode (child root ! nat k)"
    using lowercase_index(1,2)[OF lw] by (intro wfNode_child(2)[OF wr]) (simp add: k_def)
  have sn: "startNode bCB (i, j) = child root ! nat k"
    by (simp add: startNode_def Some k_def)
  show ?thesis
  proof (cases "child root ! nat k")
    case None
    with mu(1) d1 la rng sn show ?thesis
      by (simp add: playCellT_def Let_def k_def findSolutionT_None)
  next
    case t: (Some t)
    have "searchOK b1 [(i, j)] (length [(i, j)]) (findSolutionT b1 [(i, j)] i j (child root ! nat k) 1)"
      using search_invariant(1)[of b1 "[(i, j)]" i j 1 "child root ! nat k"] mu(2,3) wc t
      by simp
    then obtain vs where fs: "findSolutionT b1 [(i, j)] i j (child root ! nat k) 1 = Inr (b1, vs)"
      and vs: "\<forall>v\<in>set vs. goodVisit b1 v \<and> take (Suc 0) (v_path v) = [(i, j)]"
      by (auto simp: searchOK_def deeper_def)
    have st: "boardSize b1 = boardSize bCB" "board b1 = board bCB" by (simp_all add: b1_def)
    from vs have g: "\<forall>v\<in>set vs. goodVisit bCB v \<and> take (Suc 0) (v_path v) = [(i, j)]"
      by (simp add: goodVisit_static[OF st])
    from mu(1) have "markUsed bCB i j 0 = Inr b1" by simp
    then have ss: "sameStatic bCB b1" by (rule markUsed_sameStatic)
    have "walkTo root (map (letterAt bCB) [(i, j)]) = child root ! nat k"
      using rng t by (simp add: k_def)
    with search_nodes(1)[of b1 "[(i, j)]" i j "child root ! nat k" 1 bCB root] fs ss
    have n: "\<forall>v\<in>set vs. walkTo root (map (letterAt bCB) (v_path v)) = Some (v_node v)" by blast
    have "playCellT bCB i j = Inr (bCB, vs)"
      using mu(1,4) d1 la rng fs by (simp add: playCellT_def Let_def k_def)
    with g n sn t Some show ?thesis by auto
  qed
qed

lemma cleared_static:
  "goodVisit (cleared bCB) v = goodVisit bCB v" "startNode (cleared bCB) p = startNode bCB p"
  "letterAt (cleared bCB) = letterAt bCB" "dict (cleared bCB) = dict bCB"
  "onBoard (cleared bCB) p = onBoard bCB p"
proof -
  show "goodVisit (cleared bCB) v = goodVisit bCB v"
    by (rule goodVisit_static) (simp_all add: cleared_def)
  show l: "letterAt (cleared bCB) = letterAt bCB"
    by (rule letterAt_static) (simp_all add: cleared_def)
  show d: "dict (cleared bCB) = dict bCB" by (simp add: cleared_def)
  show "startNode (cleared bCB) p = startNode bCB p"
    by (simp only: startNode_def l d)
  show "onBoard (cleared bCB) p = onBoard bCB p" by (simp add: onBoard_def cleared_def)
qed

text \<open>
  The search from one cell of the board, in the state after the \<^verbatim>\<open>memset\<close> of
  \<^verbatim>\<open>playBoggle\<close>: either \<^verbatim>\<open>playBoggle\<close> has no node to pass and the search stops
  before anything is printed, or the search returns with the control block it
  was given and every call it has made is as \<open>goodVisit\<close> says.
\<close>

lemma cell_search:
  assumes "ready bCB" and "boardSize bCB * boardSize bCB \<le> int MAX_WORD_LENGTH"
    and "onBoard bCB (i, j)"
  obtains (abort) "startNode bCB (i, j) = None"
      "playCellT (cleared bCB) i j = Inl NullDeref \<or> playCellT (cleared bCB) i j = Inl AssertFail"
      "playCell (cleared bCB) i j = Inl NullDeref \<or> playCell (cleared bCB) i j = Inl AssertFail"
  | (search) t vs where "startNode bCB (i, j) = Some t"
      "playCellT (cleared bCB) i j = Inr (cleared bCB, vs)"
      "playCell (cleared bCB) i j = Inr (cleared bCB, concat (map v_printed vs))"
      "\<And>v. v \<in> set vs \<Longrightarrow> goodVisit bCB v"
      "\<And>v. v \<in> set vs \<Longrightarrow> hd (v_path v) = (i, j)"
      "\<And>v. v \<in> set vs \<Longrightarrow>
         (flags (v_node v) AND FLAGS_ISWORD \<noteq> 0)
           = dictHas (dict bCB) (map (letterAt bCB) (v_path v))"
proof -
  note c = ready_cleared[OF assms(1,2), folded cleared_def]
  from assms(3) have on: "onBoard (cleared bCB) (i, j)" by (simp add: cleared_static)
  from playCellT_cell[OF c on]
  consider "startNode bCB (i, j) = None"
      "playCellT (cleared bCB) i j = Inl NullDeref \<or> playCellT (cleared bCB) i j = Inl AssertFail"
    | root t vs where "dict bCB = Some root" "startNode bCB (i, j) = Some t"
      "playCellT (cleared bCB) i j = Inr (cleared bCB, vs)"
      "\<forall>v\<in>set vs. goodVisit bCB v \<and> take (Suc 0) (v_path v) = [(i, j)]
                 \<and> walkTo root (map (letterAt bCB) (v_path v)) = Some (v_node v)"
    by (auto simp: cleared_static)
  then show thesis
  proof cases
    case 1
    from 1(2) have "playCell (cleared bCB) i j = Inl NullDeref
        \<or> playCell (cleared bCB) i j = Inl AssertFail"
      by (auto simp: playCellT_erase)
    with 1 show ?thesis by (rule abort)
  next
    case 2
    have p: "playCell (cleared bCB) i j = Inr (cleared bCB, concat (map v_printed vs))"
      using 2(3) by (simp add: playCellT_erase printed_def)
    have h: "hd (v_path v) = (i, j)" if "v \<in> set vs" for v
    proof -
      from 2(4) that have "take (Suc 0) (v_path v) = [(i, j)]" by blast
      then show ?thesis by (cases "v_path v") simp_all
    qed
    have f: "(flags (v_node v) AND FLAGS_ISWORD \<noteq> 0)
           = dictHas (dict bCB) (map (letterAt bCB) (v_path v))" if "v \<in> set vs" for v
    proof -
      from 2(4) that have "walkTo root (map (letterAt bCB) (v_path v)) = Some (v_node v)" by blast
      then show ?thesis by (simp add: dictHas_def 2(1) isWord_walkTo)
    qed
    from 2(4) have g: "goodVisit bCB v" if "v \<in> set vs" for v using that by blast
    from 2(2,3) p g h f show ?thesis by (rule search)
  qed
qed

text \<open>
  A run of \<^verbatim>\<open>playBoggle\<close> is a sequence of such searches, over the cells of the
  grid row by row, every one from the control block \<open>cleared bCB\<close>, up to the
  first that stops.
\<close>

lemma run_cellwise:
  assumes "ready bCB" and "boardSize bCB * boardSize bCB \<le> int MAX_WORD_LENGTH"
  shows "playBoggle bCB = playRows (cleared bCB) 0"
    and "0 \<le> i \<Longrightarrow> i < boardSize bCB \<Longrightarrow>
         playRows (cleared bCB) i =
           (case playCols (cleared bCB) i 0 of
              Inl e \<Rightarrow> Inl e
            | Inr (b1, out1) \<Rightarrow>
                (case playRows (cleared bCB) (i + 1) of
                   Inl e \<Rightarrow> Inl e
                 | Inr (b2, out2) \<Rightarrow> Inr (b2, out1 @ out2)))"
    and "onBoard bCB (i, j) \<Longrightarrow>
         playCols (cleared bCB) i j =
           (case playCell (cleared bCB) i j of
              Inl e \<Rightarrow> Inl e
            | Inr (b1, out1) \<Rightarrow>
                (case playCols (cleared bCB) i (j + 1) of
                   Inl e \<Rightarrow> Inl e
                 | Inr (b2, out2) \<Rightarrow> Inr (b2, out1 @ out2)))"
proof -
  show "playBoggle bCB = playRows (cleared bCB) 0"
    using assms(2) by (simp add: playBoggle_def cleared_def)
next
  assume i: "0 \<le> i" "i < boardSize bCB"
  note c = ready_cleared[OF assms, folded cleared_def]
  have bs: "boardSize (cleared bCB) = boardSize bCB" by (simp add: cleared_def)
  from playColsT_wf[OF c, of i 0] i bs
  have "driveOK (cleared bCB) (playColsT (cleared bCB) i 0)" by simp
  then have "b1 = cleared bCB" if "playCols (cleared bCB) i 0 = Inr (b1, out1)" for b1 out1
    using that by (auto simp: playColsT_erase driveOK_def)
  then show "playRows (cleared bCB) i =
           (case playCols (cleared bCB) i 0 of
              Inl e \<Rightarrow> Inl e
            | Inr (b1, out1) \<Rightarrow>
                (case playRows (cleared bCB) (i + 1) of
                   Inl e \<Rightarrow> Inl e
                 | Inr (b2, out2) \<Rightarrow> Inr (b2, out1 @ out2)))"
    using i bs by (subst playRows.simps) (auto split: sum.splits)
next
  assume on: "onBoard bCB (i, j)"
  then have j: "j < boardSize (cleared bCB)" by (simp add: onBoard_def cleared_def)
  have "b1 = cleared bCB" if "playCell (cleared bCB) i j = Inr (b1, out1)" for b1 out1
    using assms on
  proof (cases rule: cell_search)
    case abort
    with that show ?thesis by auto
  next
    case (search t vs)
    with that show ?thesis by simp
  qed
  then show "playCols (cleared bCB) i j =
           (case playCell (cleared bCB) i j of
              Inl e \<Rightarrow> Inl e
            | Inr (b1, out1) \<Rightarrow>
                (case playCols (cleared bCB) i (j + 1) of
                   Inl e \<Rightarrow> Inl e
                 | Inr (b2, out2) \<Rightarrow> Inr (b2, out1 @ out2)))"
    using j by (subst playCols.simps) (auto split: sum.splits)
qed

lemma visit_words:
  assumes "ready bCB" and "goodVisit bCB v" and "(w, r, c) \<in> set (v_printed v)"
  shows "int (length w) \<le> boardSize bCB * boardSize bCB" and "set w \<subseteq> set (board bCB)"
proof -
  from assms(2,3) have w: "w = map (letterAt bCB) (v_path v)"
    by (auto simp: goodVisit_def split: if_splits)
  from goodVisit_depth[OF assms(2)] show "int (length w) \<le> boardSize bCB * boardSize bCB"
    by (simp add: w)
  have "letterAt bCB p \<in> set (board bCB)" if "p \<in> set (v_path v)" for p
  proof -
    from goodVisit_path(1)[OF assms(2)] that have "onBoard bCB p" by (simp add: list_all_iff)
    from cellIndex_less[OF this] assms(1) show ?thesis
      by (simp add: letterAt_def ready_def)
  qed
  then show "set w \<subseteq> set (board bCB)" by (auto simp: w)
qed

lemma cleared_ready:
  assumes "ready bCB"
  shows "used (cleared bCB) = replicate (nat (boardSize bCB * boardSize bCB)) False"
    and "search (cleared bCB) = replicate MAX_WORD_LENGTH NUL"
    and "cstr (search (cleared bCB)) = []"
  using assms by (simp_all add: cleared_def ready_def cstr_def MAX_WORD_LENGTH_def)

lemma playBoggle_cleared:
  assumes "ready bCB" and "playBoggle bCB = Inr (b', out)"
  shows "b' = cleared bCB"
proof -
  from assms(2) obtain vs where "playBoggleT bCB = Inr (b', vs)"
    by (cases "playBoggleT bCB") (auto simp: playBoggleT_erase)
  from playBoggleT_visits(1)[OF assms(1) this] show ?thesis by (simp add: cleared_def)
qed

lemma ex_spec:
  "ready exSpec" "boardSize exSpec * boardSize exSpec \<le> int MAX_WORD_LENGTH"
  "onBoard exSpec (0, 0)"
  by code_simp+

lemma ex_spec_cell: "playCellT (cleared exSpec) 0 0 = Inr (cleared exSpec, exSpecVisits)"
  by code_simp

lemma ex_spec_lines:
  "concat (map v_printed exSpecVisits)
     = [(''ab'', 0, 1), (''abc'', 1, 0), (''abd'', 1, 1), (''ac'', 1, 0)]"
  by code_simp

lemma ex_spec_abort: "playBoggle exSpec = Inl AssertFail"
  by code_simp

lemma ex_cell:
  "boardSize exBuilt * boardSize exBuilt \<le> int MAX_WORD_LENGTH" "onBoard exBuilt (0, 0)"
  by code_simp+

lemma ex_cell_run: "playCellT (cleared exBuilt) 0 0 = Inr (cleared exBuilt, exCellVisits)"
  by code_simp

lemma ex_cell_plain:
  "playCell (cleared exBuilt) 0 0 = Inr (cleared exBuilt, [(''ab'', 0, 1), (''ab'', 1, 0)])"
  by code_simp

lemma teardown_after_init:
  assumes init: "initBoggle b0 heap0 = (b1, heap1)" and root: "dict b1 \<noteq> None"
    and same: "dict b2 = dict b1" "trieAllocCalls b2 = trieAllocCalls b1"
      "trieFreeCalls b2 = trieFreeCalls b1"
    and ins: "insertAll b2 ws heap1 = Some (b3, heap3)"
  shows "trieFreeCalls (teardown b3) = trieAllocCalls (teardown b3) \<and> dict (teardown b3) = None"
proof -
  from init root have "counted b1"
    by (auto simp: initBoggle_def trieAllocNode_def counted_def split: if_splits)
  with same have "counted b2" by (simp add: counted_def)
  from teardown_counted[OF insertAll_counted[OF ins this]] show ?thesis .
qed

section \<open>Properties\<close>

text \<open>
  C1 (as the code has it). In the search that \<^verbatim>\<open>playBoggle\<close> starts from a cell
  \<open>(i, j)\<close>, whether or not the run stops later on another cell, every call of
  \<^verbatim>\<open>findSolution\<close> has a path that begins at \<open>(i, j)\<close> and ends at the cell given
  by its arguments \<open>row\<close> and \<open>col\<close>. Its node is flagged \<^verbatim>\<open>FLAGS_ISWORD\<close> exactly
  when the dictionary holds the word of the path; then the call prints that
  word with \<open>row\<close> and \<open>col\<close>, the last cell of the path, and otherwise it
  prints nothing. When \<^verbatim>\<open>playBoggle\<close> has no node to pass for the cell, the search
  stops at once and nothing is printed.
\<close>

theorem report_gives_last_cell:
  assumes "ready bCB" and "boardSize bCB * boardSize bCB \<le> int MAX_WORD_LENGTH"
    and "onBoard bCB (i, j)"
  shows "(startNode bCB (i, j) = None
          \<and> (playCell (cleared bCB) i j = Inl NullDeref
               \<or> playCell (cleared bCB) i j = Inl AssertFail))
     \<or> (\<exists>vs. playCellT (cleared bCB) i j = Inr (cleared bCB, vs)
          \<and> playCell (cleared bCB) i j = Inr (cleared bCB, concat (map v_printed vs))
          \<and> (\<forall>v\<in>set vs.
                v_path v \<noteq> [] \<and> hd (v_path v) = (i, j)
                \<and> last (v_path v) = (v_row v, v_col v)
                \<and> (flags (v_node v) AND FLAGS_ISWORD \<noteq> 0)
                     = dictHas (dict bCB) (map (letterAt bCB) (v_path v))
                \<and> v_printed v =
                     (if flags (v_node v) AND FLAGS_ISWORD \<noteq> 0
                      then [(map (letterAt bCB) (v_path v), v_row v, v_col v)] else [])))"
  using assms
proof (cases rule: cell_search)
  case abort
  then show ?thesis by simp
next
  case (search t vs)
  have "v_path v \<noteq> [] \<and> hd (v_path v) = (i, j)
      \<and> last (v_path v) = (v_row v, v_col v)
      \<and> (flags (v_node v) AND FLAGS_ISWORD \<noteq> 0)
           = dictHas (dict bCB) (map (letterAt bCB) (v_path v))
      \<and> v_printed v =
           (if flags (v_node v) AND FLAGS_ISWORD \<noteq> 0
            then [(map (letterAt bCB) (v_path v), v_row v, v_col v)] else [])"
    if "v \<in> set vs" for v
    using search(4)[OF that] search(5)[OF that] search(6)[OF that]
    by (simp add: goodVisit_def)
  with search(2,3) show ?thesis by blast
qed

theorem report_gives_last_cell_witness:
  "ready exSpec \<and> boardSize exSpec * boardSize exSpec \<le> int MAX_WORD_LENGTH
   \<and> onBoard exSpec (0, 0)
   \<and> playCellT (cleared exSpec) 0 0 = Inr (cleared exSpec, exSpecVisits)
   \<and> playCell (cleared exSpec) 0 0 = Inr (cleared exSpec, concat (map v_printed exSpecVisits))
   \<and> concat (map v_printed exSpecVisits)
        = [(''ab'', 0, 1), (''abc'', 1, 0), (''abd'', 1, 1), (''ac'', 1, 0)]
   \<and> list_all (\<lambda>v.
         v_path v \<noteq> [] \<and> hd (v_path v) = (0, 0)
         \<and> last (v_path v) = (v_row v, v_col v)
         \<and> (flags (v_node v) AND FLAGS_ISWORD \<noteq> 0)
              = dictHas (dict exSpec) (map (letterAt exSpec) (v_path v))
         \<and> v_printed v =
              (if flags (v_node v) AND FLAGS_ISWORD \<noteq> 0
               then [(map (letterAt exSpec) (v_path v), v_row v, v_col v)] else [])) exSpecVisits"
  unfolding list_all_iff
  using report_gives_last_cell[OF ex_spec] ex_spec ex_spec_cell ex_spec_lines
  by (auto simp: playCellT_erase)

text \<open>
  C1 as stated fails. On the board \<^verbatim>\<open>ab / cd\<close> with the dictionary \<^verbatim>\<open>ab\<close>,
  \<^verbatim>\<open>ac\<close>, \<^verbatim>\<open>abc\<close>, \<^verbatim>\<open>abd\<close>, the search that the driver starts at the cell
  \<open>(0, 0)\<close> prints \<^verbatim>\<open>ab\<close> with \<open>(0, 1)\<close>, \<^verbatim>\<open>abc\<close> with \<open>(1, 0)\<close>, \<^verbatim>\<open>abd\<close> with
  \<open>(1, 1)\<close> and \<^verbatim>\<open>ac\<close> with \<open>(1, 0)\<close>: never the cell \<open>(0, 0)\<close> where every one
  of these paths began.
\<close>

theorem report_is_not_origin:
  "map_sum id snd (playCell exSpecCleared 0 0)
     = Inr [(''ab'', 0, 1), (''abc'', 1, 0), (''abd'', 1, 1), (''ac'', 1, 0)]
   \<and> map_sum id (map printedWithOrigin \<circ> snd) (playCellT exSpecCleared 0 0)
     = Inr [([], (0, 0)), ([(''ab'', 0, 1)], (0, 0)), ([(''abc'', 1, 0)], (0, 0)),
            ([(''abd'', 1, 1)], (0, 0)), ([(''ac'', 1, 0)], (0, 0))]"
  by code_simp

text \<open>
  C2. The driver does not test the root-level child. On the board \<^verbatim>\<open>ab / cd\<close>
  with the dictionary \<^verbatim>\<open>ab\<close>, \<^verbatim>\<open>ac\<close>, \<^verbatim>\<open>abc\<close>, \<^verbatim>\<open>abd\<close> the cell \<open>(0, 1)\<close>
  holds \<^verbatim>\<open>b\<close>, the root has no child for \<^verbatim>\<open>b\<close>, and \<^verbatim>\<open>playBoggle\<close> calls
  \<^verbatim>\<open>findSolution\<close> with \<^verbatim>\<open>NULL\<close>: the assertion \<^verbatim>\<open>node != NULL\<close> fails.
\<close>

theorem playBoggle_asserts_on_missing_root_child:
  "map_option (\<lambda>root. child root ! nat (getCharIndex (board exSpec ! 1))) (dict exSpec) = Some None
   \<and> findSolution exSpec 0 1 None 1 = Inl AssertFail
   \<and> playCell (exSpec\<lparr>search := replicate MAX_WORD_LENGTH NUL\<rparr>) 0 1 = Inl AssertFail
   \<and> playBoggle exSpec = Inl AssertFail"
  by code_simp

text \<open>
  C3 (as the code has it). A word longer than \<open>N * N\<close> is skipped by \<^verbatim>\<open>trieBuild\<close>
  before \<^verbatim>\<open>trieAddWord\<close> is called: the control block is untouched. A word with
  a letter whose histogram count is zero does reach \<^verbatim>\<open>trieAddWord\<close>, which
  walks down to that letter and stops: it may allocate nodes for the letters
  before it (at most one each, none when it is the first letter), it marks
  no node, so that the dictionary holds the same words as before, and it
  returns \<open>wordAdded = false\<close>. Neither kind of word is printed by the search
  that \<^verbatim>\<open>playBoggle\<close> starts from any cell of that board, whatever the
  dictionary and whether or not the run stops later on another cell.
\<close>

theorem rejected_word:
  assumes "countLetters (board bCB) (replicate ALPHABET_SIZE 0) = Inr (histogram bCB)"
  shows "(chop buf = Inr word \<and> boardSize bCB * boardSize bCB < int (length word) \<longrightarrow>
            trieBuildLoop bCB (boardSize bCB * boardSize bCB) (buf # lines) heap n
              = trieBuildLoop bCB (boardSize bCB * boardSize bCB) lines heap n)
     \<and> (\<not> list_all (present (histogram bCB)) word
          \<and> trieAddWord bCB word heap = Inr (ok, added, bCB', heap') \<longrightarrow>
            \<not> added
            \<and> (\<forall>u. dictHas (dict bCB') u = dictHas (dict bCB) u)
            \<and> trieAllocCalls bCB'
                 \<le> trieAllocCalls bCB + length (takeWhile (present (histogram bCB)) word)
            \<and> countNode (dict bCB') + trieAllocCalls bCB
                 = countNode (dict bCB) + trieAllocCalls bCB')
     \<and> ((boardSize bCB * boardSize bCB < int (length word)
           \<or> \<not> list_all (present (histogram bCB)) word)
          \<and> ready bS \<and> board bS = board bCB \<and> boardSize bS = boardSize bCB
          \<and> boardSize bS * boardSize bS \<le> int MAX_WORD_LENGTH \<and> onBoard bS (i, j) \<longrightarrow>
            (startNode bS (i, j) = None
             \<and> (playCell (cleared bS) i j = Inl NullDeref
                  \<or> playCell (cleared bS) i j = Inl AssertFail))
            \<or> (\<exists>out. playCell (cleared bS) i j = Inr (cleared bS, out)
                  \<and> word \<notin> fst ` set out))"
proof (intro conjI impI)
  assume "chop buf = Inr word \<and> boardSize bCB * boardSize bCB < int (length word)"
  then show "trieBuildLoop bCB (boardSize bCB * boardSize bCB) (buf # lines) heap n
      = trieBuildLoop bCB (boardSize bCB * boardSize bCB) lines heap n"
    by simp
next
  assume a: "\<not> list_all (present (histogram bCB)) word
      \<and> trieAddWord bCB word heap = Inr (ok, added, bCB', heap')"
  then have a1: "\<not> list_all (present (histogram bCB)) word"
    and a2: "trieAddWord bCB word heap = Inr (ok, added, bCB', heap')" by simp_all
  show "\<not> added" by (rule trieAddWord_rejected(1)[OF a1 a2])
  show "\<forall>u. dictHas (dict bCB') u = dictHas (dict bCB) u"
    using trieAddWord_rejected(2)[OF a1 a2] by simp
  show "trieAllocCalls bCB'
      \<le> trieAllocCalls bCB + length (takeWhile (present (histogram bCB)) word)"
    by (rule trieAddWord_rejected(3)[OF a1 a2])
  show "countNode (dict bCB') + trieAllocCalls bCB = countNode (dict bCB) + trieAllocCalls bCB'"
    by (rule trieAddWord_rejected(4)[OF a1 a2])
next
  assume a: "(boardSize bCB * boardSize bCB < int (length word)
           \<or> \<not> list_all (present (histogram bCB)) word)
          \<and> ready bS \<and> board bS = board bCB \<and> boardSize bS = boardSize bCB
          \<and> boardSize bS * boardSize bS \<le> int MAX_WORD_LENGTH \<and> onBoard bS (i, j)"
  from a have rd: "ready bS" and bd: "boardSize bS * boardSize bS \<le> int MAX_WORD_LENGTH"
    and on: "onBoard bS (i, j)"
    and same: "board bS = board bCB" "boardSize bS = boardSize bCB" by blast+
  from rd bd on
  show "(startNode bS (i, j) = None
         \<and> (playCell (cleared bS) i j = Inl NullDeref
              \<or> playCell (cleared bS) i j = Inl AssertFail))
      \<or> (\<exists>out. playCell (cleared bS) i j = Inr (cleared bS, out) \<and> word \<notin> fst ` set out)"
  proof (cases rule: cell_search)
    case abort
    then show ?thesis by simp
  next
    case (search t vs)
    have "word \<notin> fst ` set (concat (map v_printed vs))"
    proof
      assume "word \<in> fst ` set (concat (map v_printed vs))"
      then obtain r c v where v: "v \<in> set vs" and m: "(word, r, c) \<in> set (v_printed v)"
        by force
      note rw = visit_words[OF rd search(4)[OF v] m]
      from rw(2) same(1) board_letters_present[OF assms]
      have "list_all (present (histogram bCB)) word" by (auto simp: list_all_iff)
      with rw(1) same(2) a show False by simp
    qed
    with search(3) show ?thesis by blast
  qed
qed

theorem rejected_word_witness:
  "countLetters (board exStart) (replicate ALPHABET_SIZE 0) = Inr (histogram exStart)
   \<and> chop (''abbaz'' @ [CHR 0x0A]) = Inr ''abbaz''
   \<and> boardSize exStart * boardSize exStart < int (length ''abbaz'')
   \<and> trieBuildLoop exStart (boardSize exStart * boardSize exStart) [''abbaz'' @ [CHR 0x0A]] 99 0
       = trieBuildLoop exStart (boardSize exStart * boardSize exStart) [] 99 0
   \<and> \<not> list_all (present (histogram exStart)) ''abbaz''
   \<and> trieAddWord exStart ''abbaz'' 99 = Inr (True, False, exLong, 95)
   \<and> (\<forall>u. dictHas (dict exLong) u = dictHas (dict exStart) u)
   \<and> trieAllocCalls exLong
        \<le> trieAllocCalls exStart + length (takeWhile (present (histogram exStart)) ''abbaz'')
   \<and> countNode (dict exLong) + trieAllocCalls exStart
        = countNode (dict exStart) + trieAllocCalls exLong
   \<and> ready exBuilt \<and> onBoard exBuilt (0, 0)
   \<and> playCell (cleared exBuilt) 0 0 = Inr (cleared exBuilt, [(''ab'', 0, 1), (''ab'', 1, 0)])
   \<and> ''abbaz'' \<notin> fst ` set [(''ab'', 0 :: int, 1 :: int), (''ab'', 1, 0)]"
  using rejected_word[OF ex_hist, of "''abbaz'' @ [CHR 0x0A]" "''abbaz''" "[]" 99 0 True False
      exLong 95 exBuilt 0 0]
    ex_hist ex_long ex_cell ex_cell_plain
  by auto

text \<open>
  C3 as stated fails: on the board \<^verbatim>\<open>ab / ba\<close> the word \<^verbatim>\<open>abz\<close> holds the letter
  \<^verbatim>\<open>z\<close>, whose count is zero, and its insertion into the dictionary that holds
  the root alone adds two nodes, for \<^verbatim>\<open>a\<close> and for \<^verbatim>\<open>b\<close>.
\<close>

theorem rejected_word_adds_nodes:
  "histogram exStart ! nat (getCharIndex CHR ''z'') = 0
   \<and> trieAddWord exStart ''abz'' 99 = Inr (True, False, exAbz, 97)
   \<and> countNode (dict exStart) = 1
   \<and> countNode (dict exAbz) = 3
   \<and> trieAllocCalls exStart = 1
   \<and> trieAllocCalls exAbz = 3
   \<and> dict exAbz \<noteq> dict exStart"
  by code_simp

text \<open>
  C4 (as the code has it). When an insertion of \<open>word\<close> has succeeded and marked
  its last node, a second insertion of the same word allocates nothing and
  leaves the control block, hence the tree and its markings, exactly as the
  first insertion left it; it returns \<open>wordAdded = true\<close> again.
\<close>

theorem trieAddWord_twice:
  assumes "trieAddWord bCB word heap = Inr (True, True, bCB1, heap1)"
  shows "trieAddWord bCB1 word heap1 = Inr (True, True, bCB1, heap1)"
proof -
  from assms obtain root where root: "dict bCB = Some root"
    by (auto simp: trieAddWord_def split: option.splits list.splits if_splits)
  from assms root obtain c cs where w: "word = c # cs"
    by (auto simp: trieAddWord_def split: list.splits)
  from assms root w obtain root' a where
    d: "trieDescend (histogram bCB) root word heap = Inr (Completed, root', a, heap1)"
    and b1: "bCB1 = bCB\<lparr>dict := Some root', trieAllocCalls := trieAllocCalls bCB + a\<rparr>"
    by (auto simp: trieAddWord_def split: sum.splits)
  from trieDescend_again[OF d] b1 w show ?thesis
    by (simp add: trieAddWord_def)
qed

theorem trieAddWord_twice_witness:
  "trieAddWord exStart ''ab'' 99 = Inr (True, True, exOnce, 97)
   \<and> trieAddWord exOnce ''ab'' 97 = Inr (True, True, exOnce, 97)"
proof -
  have h: "trieAddWord exStart ''ab'' 99 = Inr (True, True, exOnce, 97)" by code_simp
  from trieAddWord_twice[OF h] h show ?thesis by simp
qed

text \<open>
  C4 as stated fails: on the board \<^verbatim>\<open>ab / ba\<close> the second insertion of \<^verbatim>\<open>ab\<close>
  returns \<open>wordAdded = true\<close>, not \<open>false\<close>.
\<close>

theorem second_insertion_reports_added:
  "trieAddWord exStart ''ab'' 99 = Inr (True, True, exOnce, 97)
   \<and> map_sum id (fst \<circ> snd) (trieAddWord exOnce ''ab'' 97) = Inr True
   \<and> map_sum id (fst \<circ> snd) (trieAddWord exOnce ''ab'' 97) \<noteq> Inr False"
  by code_simp

text \<open>
  C5. In the search that \<^verbatim>\<open>playBoggle\<close> starts from a cell, whether or not the
  run stops later on another cell, every call of \<^verbatim>\<open>findSolution\<close> finds on entry
  a mask whose used cells are exactly the cells of its path, and leaves on
  return the mask and the buffer it found on entry. The search of the cell
  returns the control block it was given, in which the mask is all false and
  the buffer is all \<open>NUL\<close>, the empty word; a run of \<^verbatim>\<open>playBoggle\<close> that returns
  leaves this control block.
\<close>

theorem mask_is_path_and_restored:
  assumes "ready bCB" and "boardSize bCB * boardSize bCB \<le> int MAX_WORD_LENGTH"
    and "onBoard bCB (i, j)"
  shows "((startNode bCB (i, j) = None
           \<and> (playCell (cleared bCB) i j = Inl NullDeref
                \<or> playCell (cleared bCB) i j = Inl AssertFail))
          \<or> (\<exists>vs. playCellT (cleared bCB) i j = Inr (cleared bCB, vs)
               \<and> playCell (cleared bCB) i j = Inr (cleared bCB, concat (map v_printed vs))
               \<and> (\<forall>v\<in>set vs.
                     {p. onBoard bCB p \<and> v_used v ! cellIndex bCB p} = set (v_path v)
                     \<and> v_used_out v = v_used v \<and> v_search_out v = v_search v)))
     \<and> used (cleared bCB) = replicate (nat (boardSize bCB * boardSize bCB)) False
     \<and> search (cleared bCB) = replicate MAX_WORD_LENGTH NUL
     \<and> cstr (search (cleared bCB)) = []
     \<and> (\<forall>b' out. playBoggle bCB = Inr (b', out) \<longrightarrow> b' = cleared bCB)"
proof -
  from assms have "(startNode bCB (i, j) = None
           \<and> (playCell (cleared bCB) i j = Inl NullDeref
                \<or> playCell (cleared bCB) i j = Inl AssertFail))
          \<or> (\<exists>vs. playCellT (cleared bCB) i j = Inr (cleared bCB, vs)
               \<and> playCell (cleared bCB) i j = Inr (cleared bCB, concat (map v_printed vs))
               \<and> (\<forall>v\<in>set vs.
                     {p. onBoard bCB p \<and> v_used v ! cellIndex bCB p} = set (v_path v)
                     \<and> v_used_out v = v_used v \<and> v_search_out v = v_search v))"
  proof (cases rule: cell_search)
    case abort
    then show ?thesis by simp
  next
    case (search t vs)
    have "{p. onBoard bCB p \<and> v_used v ! cellIndex bCB p} = set (v_path v)
        \<and> v_used_out v = v_used v \<and> v_search_out v = v_search v" if "v \<in> set vs" for v
    proof -
      note g = search(4)[OF that]
      from goodVisit_path(1,4)[OF g]
      have "{p. onBoard bCB p \<and> v_used v ! cellIndex bCB p} = set (v_path v)"
        by (auto simp: maskOf_def list_all_iff)
      with g show ?thesis by (simp add: goodVisit_def)
    qed
    with search(2,3) show ?thesis by blast
  qed
  moreover have "\<forall>b' out. playBoggle bCB = Inr (b', out) \<longrightarrow> b' = cleared bCB"
    using playBoggle_cleared[OF assms(1)] by blast
  ultimately show ?thesis using cleared_ready[OF assms(1)] by blast
qed

theorem mask_is_path_and_restored_witness:
  "ready exBuilt \<and> boardSize exBuilt * boardSize exBuilt \<le> int MAX_WORD_LENGTH
   \<and> onBoard exBuilt (0, 0)
   \<and> playCellT (cleared exBuilt) 0 0 = Inr (cleared exBuilt, exCellVisits)
   \<and> list_all (\<lambda>v.
          {p. onBoard exBuilt p \<and> v_used v ! cellIndex exBuilt p} = set (v_path v)
          \<and> v_used_out v = v_used v \<and> v_search_out v = v_search v) exCellVisits
   \<and> playBoggle exBuilt = Inr (cleared exBuilt, printed exVisits)
   \<and> used (cleared exBuilt) = replicate (nat (boardSize exBuilt * boardSize exBuilt)) False
   \<and> search (cleared exBuilt) = replicate MAX_WORD_LENGTH NUL
   \<and> cstr (search (cleared exBuilt)) = []
   \<and> ready exSpec \<and> boardSize exSpec * boardSize exSpec \<le> int MAX_WORD_LENGTH
   \<and> onBoard exSpec (0, 0)
   \<and> playBoggle exSpec = Inl AssertFail
   \<and> playCellT (cleared exSpec) 0 0 = Inr (cleared exSpec, exSpecVisits)
   \<and> list_all (\<lambda>v.
          {p. onBoard exSpec p \<and> v_used v ! cellIndex exSpec p} = set (v_path v)
          \<and> v_used_out v = v_used v \<and> v_search_out v = v_search v) exSpecVisits"
proof -
  have r: "playBoggle exBuilt = Inr (cleared exBuilt, printed exVisits)"
    using ex_run_plain by (simp add: exCleared_def cleared_def)
  have a: "playCellT (cleared exBuilt) 0 0 = Inr (cleared exBuilt, exCellVisits)
     \<and> list_all (\<lambda>v.
          {p. onBoard exBuilt p \<and> v_used v ! cellIndex exBuilt p} = set (v_path v)
          \<and> v_used_out v = v_used v \<and> v_search_out v = v_search v) exCellVisits
     \<and> used (cleared exBuilt) = replicate (nat (boardSize exBuilt * boardSize exBuilt)) False
     \<and> search (cleared exBuilt) = replicate MAX_WORD_LENGTH NUL
     \<and> cstr (search (cleared exBuilt)) = []"
    unfolding list_all_iff
    using mask_is_path_and_restored[OF ex_ready ex_cell] ex_cell_run
    by (auto simp: playCellT_erase)
  have b: "playCellT (cleared exSpec) 0 0 = Inr (cleared exSpec, exSpecVisits)
     \<and> list_all (\<lambda>v.
          {p. onBoard exSpec p \<and> v_used v ! cellIndex exSpec p} = set (v_path v)
          \<and> v_used_out v = v_used v \<and> v_search_out v = v_search v) exSpecVisits"
    unfolding list_all_iff
    using mask_is_path_and_restored[OF ex_spec] ex_spec_cell
    by (auto simp: playCellT_erase)
  from a b r ex_ready ex_cell ex_spec ex_spec_abort show ?thesis by blast
qed

text \<open>
  C6. In the search that \<^verbatim>\<open>playBoggle\<close> starts from a cell, whether or not the
  run stops later on another cell, every word that a call of \<^verbatim>\<open>findSolution\<close>
  prints is the word of the path of that call, and this path holds no cell
  twice, and no index of the board twice.
\<close>

theorem no_cell_twice:
  assumes "ready bCB" and "boardSize bCB * boardSize bCB \<le> int MAX_WORD_LENGTH"
    and "onBoard bCB (i, j)"
  shows "(startNode bCB (i, j) = None
          \<and> (playCell (cleared bCB) i j = Inl NullDeref
               \<or> playCell (cleared bCB) i j = Inl AssertFail))
     \<or> (\<exists>vs. playCellT (cleared bCB) i j = Inr (cleared bCB, vs)
          \<and> playCell (cleared bCB) i j = Inr (cleared bCB, concat (map v_printed vs))
          \<and> (\<forall>v\<in>set vs.
                (\<forall>l\<in>set (v_printed v). fst l = map (letterAt bCB) (v_path v))
                \<and> distinct (v_path v) \<and> distinct (map (cellIndex bCB) (v_path v))))"
  using assms
proof (cases rule: cell_search)
  case abort
  then show ?thesis by simp
next
  case (search t vs)
  have "(\<forall>l\<in>set (v_printed v). fst l = map (letterAt bCB) (v_path v))
      \<and> distinct (v_path v) \<and> distinct (map (cellIndex bCB) (v_path v))" if "v \<in> set vs" for v
  proof -
    note g = search(4)[OF that]
    note p = goodVisit_path(1,2)[OF g]
    have "inj_on (cellIndex bCB) (set (v_path v))"
    proof (rule inj_onI)
      fix p q assume "p \<in> set (v_path v)" "q \<in> set (v_path v)" "cellIndex bCB p = cellIndex bCB q"
      with p(1) show "p = q" by (intro cellIndex_inj[of bCB]) (simp_all add: list_all_iff)
    qed
    with p(2) have "distinct (v_path v) \<and> distinct (map (cellIndex bCB) (v_path v))"
      by (simp add: distinct_map)
    moreover from g have "\<forall>l\<in>set (v_printed v). fst l = map (letterAt bCB) (v_path v)"
      by (auto simp: goodVisit_def split: if_splits)
    ultimately show ?thesis by blast
  qed
  with search(2,3) show ?thesis by blast
qed

theorem no_cell_twice_witness:
  "ready exSpec \<and> boardSize exSpec * boardSize exSpec \<le> int MAX_WORD_LENGTH
   \<and> onBoard exSpec (0, 0)
   \<and> playCellT (cleared exSpec) 0 0 = Inr (cleared exSpec, exSpecVisits)
   \<and> playCell (cleared exSpec) 0 0 = Inr (cleared exSpec, concat (map v_printed exSpecVisits))
   \<and> list_all (\<lambda>v.
         (\<forall>l\<in>set (v_printed v). fst l = map (letterAt exSpec) (v_path v))
         \<and> distinct (v_path v) \<and> distinct (map (cellIndex exSpec) (v_path v))) exSpecVisits"
  unfolding list_all_iff
  using no_cell_twice[OF ex_spec] ex_spec ex_spec_cell
  by (auto simp: playCellT_erase)

text \<open>
  C7. In the search that \<^verbatim>\<open>playBoggle\<close> starts from a cell, whether or not the
  run stops later on another cell, every word that a call of \<^verbatim>\<open>findSolution\<close>
  prints is the word of the path of that call, and any two consecutive cells
  of this path differ by at most 1 in the row and by at most 1 in the column,
  and are not the same cell.
\<close>

theorem consecutive_cells_adjacent:
  assumes "ready bCB" and "boardSize bCB * boardSize bCB \<le> int MAX_WORD_LENGTH"
    and "onBoard bCB (i, j)"
  shows "(startNode bCB (i, j) = None
          \<and> (playCell (cleared bCB) i j = Inl NullDeref
               \<or> playCell (cleared bCB) i j = Inl AssertFail))
     \<or> (\<exists>vs. playCellT (cleared bCB) i j = Inr (cleared bCB, vs)
          \<and> playCell (cleared bCB) i j = Inr (cleared bCB, concat (map v_printed vs))
          \<and> (\<forall>v\<in>set vs.
                (\<forall>l\<in>set (v_printed v). fst l = map (letterAt bCB) (v_path v))
                \<and> (\<forall>k. Suc k < length (v_path v) \<longrightarrow>
                      \<bar>fst (v_path v ! k) - fst (v_path v ! Suc k)\<bar> \<le> 1
                      \<and> \<bar>snd (v_path v ! k) - snd (v_path v ! Suc k)\<bar> \<le> 1
                      \<and> v_path v ! k \<noteq> v_path v ! Suc k)))"
  using assms
proof (cases rule: cell_search)
  case abort
  then show ?thesis by simp
next
  case (search t vs)
  have "(\<forall>l\<in>set (v_printed v). fst l = map (letterAt bCB) (v_path v))
      \<and> (\<forall>k. Suc k < length (v_path v) \<longrightarrow>
            \<bar>fst (v_path v ! k) - fst (v_path v ! Suc k)\<bar> \<le> 1
            \<and> \<bar>snd (v_path v ! k) - snd (v_path v ! Suc k)\<bar> \<le> 1
            \<and> v_path v ! k \<noteq> v_path v ! Suc k)" if "v \<in> set vs" for v
  proof -
    note g = search(4)[OF that]
    have "\<bar>fst (v_path v ! k) - fst (v_path v ! Suc k)\<bar> \<le> 1
        \<and> \<bar>snd (v_path v ! k) - snd (v_path v ! Suc k)\<bar> \<le> 1
        \<and> v_path v ! k \<noteq> v_path v ! Suc k" if "Suc k < length (v_path v)" for k
      using successively_nth[OF goodVisit_path(3)[OF g] that] by (simp add: adjacent_def)
    moreover from g have "\<forall>l\<in>set (v_printed v). fst l = map (letterAt bCB) (v_path v)"
      by (auto simp: goodVisit_def split: if_splits)
    ultimately show ?thesis by blast
  qed
  with search(2,3) show ?thesis by blast
qed

theorem consecutive_cells_adjacent_witness:
  "ready exSpec \<and> boardSize exSpec * boardSize exSpec \<le> int MAX_WORD_LENGTH
   \<and> onBoard exSpec (0, 0)
   \<and> playCellT (cleared exSpec) 0 0 = Inr (cleared exSpec, exSpecVisits)
   \<and> playCell (cleared exSpec) 0 0 = Inr (cleared exSpec, concat (map v_printed exSpecVisits))
   \<and> list_all (\<lambda>v.
         (\<forall>l\<in>set (v_printed v). fst l = map (letterAt exSpec) (v_path v))
         \<and> (\<forall>k. Suc k < length (v_path v) \<longrightarrow>
               \<bar>fst (v_path v ! k) - fst (v_path v ! Suc k)\<bar> \<le> 1
               \<and> \<bar>snd (v_path v ! k) - snd (v_path v ! Suc k)\<bar> \<le> 1
               \<and> v_path v ! k \<noteq> v_path v ! Suc k)) exSpecVisits"
  unfolding list_all_iff
  using consecutive_cells_adjacent[OF ex_spec] ex_spec ex_spec_cell
  by (auto simp: playCellT_erase)

text \<open>
  C8. \<^verbatim>\<open>findSolution\<close> is defined by a recursion that ends: it descends in
  the dictionary tree. Called in a state of the search (the mask marks the
  cells of the path, the buffer holds their letters) on a node of the
  dictionary, it returns, with the control block as it found it; the call
  itself has depth \<open>stringIndex = length path\<close>, every call nested in it has a
  greater depth, and no depth exceeds \<open>N * N\<close>.
\<close>

theorem search_terminates_depth_bounded:
  assumes "wfCB bCB" and "pathInv bCB path" and "path \<noteq> []" and "last path = (row, col)"
    and "wfNode (Some t)"
  shows "\<exists>v vs. findSolutionT bCB path row col (Some t) (int (length path)) = Inr (bCB, v # vs)
      \<and> findSolution bCB row col (Some t) (int (length path)) = Inr (bCB, printed (v # vs))
      \<and> v_index v = int (length path)
      \<and> (\<forall>w\<in>set vs. v_index v < v_index w)
      \<and> (\<forall>w\<in>set (v # vs). v_index w = int (length (v_path w))
            \<and> v_index w \<le> boardSize bCB * boardSize bCB)"
proof -
  from search_invariant(1)[of bCB path row col "int (length path)" "Some t"] assms
  have "searchOK bCB path (length path)
      (findSolutionT bCB path row col (Some t) (int (length path)))" by simp
  then obtain ws where r: "findSolutionT bCB path row col (Some t) (int (length path)) = Inr (bCB, ws)"
    and ws: "\<forall>w\<in>set ws. goodVisit bCB w" by (auto simp: searchOK_def deeper_def)
  from search_invariant(2)[of bCB path row col "int (length path)" t "- 1"] assms
  have "searchOK bCB path (Suc (length path))
      (findRowsT bCB path row col t (int (length path)) (- 1))" by simp
  then obtain vs where q: "findRowsT bCB path row col t (int (length path)) (- 1) = Inr (bCB, vs)"
    and vs: "\<forall>w\<in>set vs. goodVisit bCB w \<and> Suc (length path) \<le> length (v_path w)"
    by (auto simp: searchOK_def deeper_def)
  from r q obtain v where ws_eq: "ws = v # vs" and vi: "v_index v = int (length path)"
    by (auto simp: findSolutionT_Some split: sum.splits)
  have "v_index v < v_index w" if "w \<in> set vs" for w
  proof -
    from vs that have "goodVisit bCB w" "Suc (length path) \<le> length (v_path w)" by simp_all
    with goodVisit_depth(1)[of bCB w] vi show ?thesis by simp
  qed
  moreover have "v_index w = int (length (v_path w)) \<and> v_index w \<le> boardSize bCB * boardSize bCB"
    if "w \<in> set (v # vs)" for w
    using ws that goodVisit_depth[of bCB w] by (auto simp: ws_eq)
  moreover have "findSolution bCB row col (Some t) (int (length path)) = Inr (bCB, printed (v # vs))"
    using r by (simp add: findSolutionT_erase(1)[of _ _ _ _ _ path] ws_eq)
  ultimately show ?thesis using r vi ws_eq by blast
qed

theorem search_terminates_depth_bounded_witness:
  "wfCB exMarked \<and> pathInv exMarked [(0, 0)] \<and> wfNode (Some exNode)
   \<and> (\<exists>v vs. findSolutionT exMarked [(0, 0)] 0 0 (Some exNode) 1 = Inr (exMarked, v # vs)
      \<and> findSolution exMarked 0 0 (Some exNode) 1 = Inr (exMarked, printed (v # vs))
      \<and> v_index v = 1
      \<and> list_all (\<lambda>w. v_index v < v_index w) vs
      \<and> list_all (\<lambda>w. v_index w = int (length (v_path w))
            \<and> v_index w \<le> boardSize exMarked * boardSize exMarked) (v # vs))"
  unfolding list_all_iff
  using search_terminates_depth_bounded[OF ex_wfCB ex_pathInv _ _ ex_wfNode, of 0 0]
    ex_wfCB ex_pathInv ex_wfNode
  by simp

text \<open>
  C9. The counters do not balance when the allocation of the root fails.
  \<^verbatim>\<open>initBoggle\<close> counts the root allocation without testing its result, where
  \<^verbatim>\<open>trieAddWord\<close> tests a new node before it counts it. When \<^verbatim>\<open>malloc\<close> fails
  in \<^verbatim>\<open>initBoggle\<close>, \<open>trieAllocCalls\<close> is 1 and no node exists; the empty sequence
  of insertions, and the insertions of \<^verbatim>\<open>zz\<close> and \<^verbatim>\<open>zab\<close> on the board
  \<^verbatim>\<open>ab / ba\<close>, succeed; the teardown frees nothing and leaves
  \<open>trieFreeCalls = 0\<close> and \<open>trieAllocCalls = 1\<close>, so that the assertion
  \<^verbatim>\<open>bCB.trieAllocCalls == bCB.trieFreeCalls\<close> of \<^verbatim>\<open>main\<close> fails. When the root
  was allocated the counters balance (\<open>teardown_after_init\<close>).
\<close>

theorem initBoggle_counts_failed_allocation:
  "initBoggle zeroCB 0 = (zeroCB\<lparr>trieAllocCalls := 1\<rparr>, 0)
   \<and> mainSetup 2 ''abba'' 0 = Inr (exNoHeap, 0)
   \<and> dict exNoHeap = None
   \<and> trieAllocCalls exNoHeap = 1
   \<and> trieFreeCalls exNoHeap = 0
   \<and> insertAll exNoHeap [] 0 = Some (exNoHeap, 0)
   \<and> insertAll exNoHeap [''zz'', ''zab''] 0 = Some (exNoHeap, 0)
   \<and> dict (teardown exNoHeap) = None
   \<and> trieAllocCalls (teardown exNoHeap) = 1
   \<and> trieFreeCalls (teardown exNoHeap) = 0
   \<and> trieFreeCalls (teardown exNoHeap) \<noteq> trieAllocCalls (teardown exNoHeap)"
  by code_simp

text \<open>
  C10. The bound test of \<^verbatim>\<open>isValid\<close> lets the index \<open>N * N\<close> through: called with
  it, \<^verbatim>\<open>isValid\<close> reads \<^verbatim>\<open>used\<close> one place past its end. But a row and a column
  inside the grid give an index between \<open>0\<close> and \<open>N * N - 1\<close>, and no run of
  \<^verbatim>\<open>playBoggle\<close> ends in an access outside an array: the calls of \<^verbatim>\<open>isValid\<close>
  in \<^verbatim>\<open>findSolution\<close> stand behind the tests of \<open>newRow\<close> and \<open>newCol\<close>.
\<close>

theorem isValid_never_out_of_range:
  assumes "ready bCB"
  shows "isValid bCB (boardSize bCB * boardSize bCB) t = Inl OutOfBounds
     \<and> (\<forall>r c. 0 \<le> r \<and> r < boardSize bCB \<and> 0 \<le> c \<and> c < boardSize bCB \<longrightarrow>
            0 \<le> getBoardIndex bCB r c
            \<and> getBoardIndex bCB r c \<le> boardSize bCB * boardSize bCB - 1)
     \<and> playBoggleT bCB \<noteq> Inl OutOfBounds
     \<and> playBoggle bCB \<noteq> Inl OutOfBounds"
proof -
  from assms have n: "0 \<le> boardSize bCB * boardSize bCB"
    and m: "maxBoardSize bCB = boardSize bCB * boardSize bCB"
    and u: "length (used bCB) = nat (boardSize bCB * boardSize bCB)"
    by (simp_all add: ready_def)
  have a: "isValid bCB (boardSize bCB * boardSize bCB) t = Inl OutOfBounds"
    using n m u by (simp add: isValid_def inRange_def)
  have b: "0 \<le> getBoardIndex bCB r c \<and> getBoardIndex bCB r c \<le> boardSize bCB * boardSize bCB - 1"
    if "0 \<le> r \<and> r < boardSize bCB \<and> 0 \<le> c \<and> c < boardSize bCB" for r c
  proof -
    from that have "onBoard bCB (r, c)" by (simp add: onBoard_def)
    from getBoardIndex_bounds[OF this] show ?thesis by simp
  qed
  from playBoggleT_wf[OF assms] have c: "playBoggleT bCB \<noteq> Inl OutOfBounds" by auto
  then have d: "playBoggle bCB \<noteq> Inl OutOfBounds"
    by (cases "playBoggleT bCB") (auto simp: playBoggleT_erase)
  from a b c d show ?thesis by blast
qed

theorem isValid_never_out_of_range_witness:
  "ready exBuilt
   \<and> isValid exBuilt (boardSize exBuilt * boardSize exBuilt) exNode = Inl OutOfBounds
   \<and> 0 \<le> getBoardIndex exBuilt 1 1
   \<and> getBoardIndex exBuilt 1 1 \<le> boardSize exBuilt * boardSize exBuilt - 1
   \<and> playBoggleT exBuilt \<noteq> Inl OutOfBounds
   \<and> playBoggle exBuilt \<noteq> Inl OutOfBounds"
proof -
  have b: "(0::int) \<le> 1 \<and> 1 < boardSize exBuilt \<and> (0::int) \<le> 1 \<and> 1 < boardSize exBuilt"
    by code_simp
  from isValid_never_out_of_range[OF ex_ready, of exNode] b ex_ready show ?thesis by blast
qed

end
